theory Spec2Isabelle
  imports Complex_Main
begin

section \<open>Numbers, points and errors\<close>

text \<open>
  The program is the regression service of a polynomial curve fitter
  (\<^verbatim>\<open>solveLinearSystem\<close>, \<^verbatim>\<open>calculatePolynomialRegression\<close>,
  \<^verbatim>\<open>evaluatePolynomial\<close>, \<^verbatim>\<open>findBestFitPolynomial\<close>), the automatic branch of
  \<^verbatim>\<open>handleTrain\<close> and the \<^verbatim>\<open>PrettyFormula\<close> component.

  A JavaScript \<^verbatim>\<open>number\<close> is modelled as an exact \<^typ>\<open>real\<close>: the rounding of IEEE
  doubles and NaN are not modelled, and overflow only for the residual sum of squares
  of the sweep, where it decides whether a fit can be accepted. The properties stated
  below for the program are about which branch a run takes, given the pivots, residual
  sums and scores it has computed; what the rounded numbers are worth as a solution or
  as a minimum is not stated. The last section is about exact arithmetic only.
  The literal \<^verbatim>\<open>1e-10\<close> is \<open>1 / 10 ^ 10\<close>,
  \<^verbatim>\<open>Math.pow(x, j)\<close> with a loop index \<open>j\<close> is \<open>x ^ j\<close> (so \<open>0 ^ 0 = 1\<close>, as in
  JavaScript). Array indices are \<^typ>\<open>nat\<close>; a degree is an \<^typ>\<open>int\<close>, because
  the sweep uses \<open>-1\<close> as "no degree yet".

  The source throws plain \<^verbatim>\<open>Error\<close> objects that differ in their message only.
  The constructors of \<open>error\<close> are the kinds of message; the three messages about
  too few points are told apart by the place that throws them.
\<close>

datatype throw_site =
    InSweep          \<comment> \<open>\<^verbatim>\<open>findBestFitPolynomial\<close>: "Not enough data points to find a best-fit polynomial (requires at least 2)."\<close>
  | InAutoMode       \<comment> \<open>\<^verbatim>\<open>handleTrain\<close>: "Please provide at least 2 data points for auto mode."\<close>
  | InExplicitMode   \<comment> \<open>\<^verbatim>\<open>handleTrain\<close>: "Please provide at least ... data points for a degree ... polynomial."\<close>

datatype error =
    SingularMatrixError      \<comment> \<open>"Matrix is singular. Cannot solve. Try a lower polynomial degree or different data."\<close>
  | InsufficientDataError throw_site
  | NoModelFoundError        \<comment> \<open>"Could not determine a best-fit model for the given data."\<close>

datatype point = Point (x_of: real) (y_of: real)

type_synonym matrix = "real list list"

section \<open>solveLinearSystem on values\<close>

text \<open>
  \<open>entry m k j\<close> reads \<^verbatim>\<open>m[k][j]\<close> and \<open>put m k j v\<close> is the assignment
  \<^verbatim>\<open>m[k][j] = v\<close>. Both are faithful for indices in range, which is where
  the theorems below use them: \<open>n\<close> rows of \<open>n + 1\<close> entries.
\<close>

definition entry :: "matrix \<Rightarrow> nat \<Rightarrow> nat \<Rightarrow> real" where
  "entry m k j = m ! k ! j"

definition put :: "matrix \<Rightarrow> nat \<Rightarrow> nat \<Rightarrow> real \<Rightarrow> matrix" where
  "put m k j v = m[k := (m ! k)[j := v]]"

text \<open>\<^verbatim>\<open>for (i = 0; i < n; i++) m[i] = [...matrixA[i], vectorB[i]]\<close>\<close>

definition augment :: "matrix \<Rightarrow> real list \<Rightarrow> matrix" where
  "augment matrixA vectorB =
     map (\<lambda>i. matrixA ! i @ [vectorB ! i]) [0..<length matrixA]"

text \<open>
  The pivot search: \<^verbatim>\<open>maxRow = i; for (k = i + 1; k < n; k++) if (|m[k][i]| > |m[maxRow][i]|) maxRow = k\<close>.
\<close>

definition find_pivot :: "matrix \<Rightarrow> nat \<Rightarrow> nat \<Rightarrow> nat" where
  "find_pivot m n i =
     fold (\<lambda>k maxRow. if \<bar>entry m k i\<bar> > \<bar>entry m maxRow i\<bar> then k else maxRow)
       [i + 1..<n] i"

text \<open>\<^verbatim>\<open>[m[i], m[maxRow]] = [m[maxRow], m[i]]\<close>: both reads happen before the two writes.\<close>

definition swap_rows :: "matrix \<Rightarrow> nat \<Rightarrow> nat \<Rightarrow> matrix" where
  "swap_rows m i maxRow = (m[i := m ! maxRow])[maxRow := m ! i]"

text \<open>
  \<^verbatim>\<open>for (k = i + 1; k < n + 1; k++) m[i][k] /= m[i][i];  m[i][i] = 1\<close>
\<close>

definition normalize_row :: "matrix \<Rightarrow> nat \<Rightarrow> nat \<Rightarrow> matrix" where
  "normalize_row m n i =
     put (fold (\<lambda>k m'. put m' i k (entry m' i k / entry m' i i)) [i + 1..<n + 1] m) i i 1"

text \<open>
  \<^verbatim>\<open>factor = m[k][i]; for (j = i; j < n + 1; j++) m[k][j] -= factor * m[i][j]\<close>
\<close>

definition eliminate_row :: "matrix \<Rightarrow> nat \<Rightarrow> nat \<Rightarrow> nat \<Rightarrow> matrix" where
  "eliminate_row m n i k =
     (let factor = entry m k i
      in fold (\<lambda>j m'. put m' k j (entry m' k j - factor * entry m' i j)) [i..<n + 1] m)"

text \<open>\<^verbatim>\<open>for (k = 0; k < n; k++) if (k !== i) { ... }\<close>\<close>

definition eliminate :: "matrix \<Rightarrow> nat \<Rightarrow> nat \<Rightarrow> matrix" where
  "eliminate m n i =
     fold (\<lambda>k m'. if k \<noteq> i then eliminate_row m' n i k else m') [0..<n] m"

text \<open>One iteration of the outer loop; the \<^verbatim>\<open>throw\<close> is the \<open>Inl\<close> branch.\<close>

definition elim_step :: "matrix \<Rightarrow> nat \<Rightarrow> nat \<Rightarrow> error + matrix" where
  "elim_step m n i =
     (let maxRow = find_pivot m n i;
          m1 = swap_rows m i maxRow
      in if \<bar>entry m1 i i\<bar> < 1 / 10 ^ 10 then Inl SingularMatrixError
         else Inr (eliminate (normalize_row m1 n i) n i))"

text \<open>The outer loop \<^verbatim>\<open>for (i = 0; i < n; i++)\<close>, run over the remaining indices.\<close>

fun elim_loop :: "matrix \<Rightarrow> nat \<Rightarrow> nat list \<Rightarrow> error + matrix" where
  "elim_loop m n [] = Inr m"
| "elim_loop m n (i # is) =
     (case elim_step m n i of
        Inl e \<Rightarrow> Inl e
      | Inr m' \<Rightarrow> elim_loop m' n is)"

definition solveLinearSystem :: "matrix \<Rightarrow> real list \<Rightarrow> error + real list" where
  "solveLinearSystem matrixA vectorB =
     (let n = length matrixA;
          m = augment matrixA vectorB
      in case elim_loop m n [0..<n] of
           Inl e \<Rightarrow> Inl e
         | Inr m' \<Rightarrow> Inr (map (\<lambda>i. entry m' i n) [0..<n]))"

section \<open>solveLinearSystem on a store\<close>

text \<open>
  Whether the caller's arrays are written depends on which arrays the working matrix
  shares with the argument, so the same function is modelled a second time with the
  arrays of numbers in a store. An address is an index into the store and a new array is
  appended at the end. \<^verbatim>\<open>matrixA\<close> is the list of the addresses of its rows and
  \<^verbatim>\<open>vectorB\<close> is an address. The outer array \<^verbatim>\<open>m = new Array(n)\<close> is local to the call
  and holds row addresses; the spread \<^verbatim>\<open>[...matrixA[i], vectorB[i]]\<close> allocates a new row.
  The returned \<^verbatim>\<open>solution\<close> is a new array as well, returned by its address.
\<close>

type_synonym addr = nat
type_synonym store = "real list list"

definition entry_at :: "store \<Rightarrow> addr list \<Rightarrow> nat \<Rightarrow> nat \<Rightarrow> real" where
  "entry_at h m k j = h ! (m ! k) ! j"

definition put_at :: "store \<Rightarrow> addr list \<Rightarrow> nat \<Rightarrow> nat \<Rightarrow> real \<Rightarrow> store" where
  "put_at h m k j v = h[m ! k := (h ! (m ! k))[j := v]]"

definition augment_st :: "store \<Rightarrow> addr list \<Rightarrow> addr \<Rightarrow> store \<times> addr list" where
  "augment_st h matrixA vectorB =
     fold (\<lambda>i (h', m). (h' @ [h' ! (matrixA ! i) @ [h' ! vectorB ! i]], m @ [length h']))
       [0..<length matrixA] (h, [])"

definition find_pivot_st :: "store \<Rightarrow> addr list \<Rightarrow> nat \<Rightarrow> nat \<Rightarrow> nat" where
  "find_pivot_st h m n i =
     fold (\<lambda>k maxRow. if \<bar>entry_at h m k i\<bar> > \<bar>entry_at h m maxRow i\<bar> then k else maxRow)
       [i + 1..<n] i"

definition swap_refs :: "addr list \<Rightarrow> nat \<Rightarrow> nat \<Rightarrow> addr list" where
  "swap_refs m i maxRow = (m[i := m ! maxRow])[maxRow := m ! i]"

definition normalize_row_st :: "store \<Rightarrow> addr list \<Rightarrow> nat \<Rightarrow> nat \<Rightarrow> store" where
  "normalize_row_st h m n i =
     put_at (fold (\<lambda>k h'. put_at h' m i k (entry_at h' m i k / entry_at h' m i i)) [i + 1..<n + 1] h)
       m i i 1"

definition eliminate_row_st :: "store \<Rightarrow> addr list \<Rightarrow> nat \<Rightarrow> nat \<Rightarrow> nat \<Rightarrow> store" where
  "eliminate_row_st h m n i k =
     (let factor = entry_at h m k i
      in fold (\<lambda>j h'. put_at h' m k j (entry_at h' m k j - factor * entry_at h' m i j)) [i..<n + 1] h)"

definition eliminate_st :: "store \<Rightarrow> addr list \<Rightarrow> nat \<Rightarrow> nat \<Rightarrow> store" where
  "eliminate_st h m n i =
     fold (\<lambda>k h'. if k \<noteq> i then eliminate_row_st h' m n i k else h') [0..<n] h"

definition elim_step_st :: "store \<Rightarrow> addr list \<Rightarrow> nat \<Rightarrow> nat \<Rightarrow> (error + addr list) \<times> store" where
  "elim_step_st h m n i =
     (let maxRow = find_pivot_st h m n i;
          m1 = swap_refs m i maxRow
      in if \<bar>entry_at h m1 i i\<bar> < 1 / 10 ^ 10 then (Inl SingularMatrixError, h)
         else (Inr m1, eliminate_st (normalize_row_st h m1 n i) m1 n i))"

fun elim_loop_st :: "store \<Rightarrow> addr list \<Rightarrow> nat \<Rightarrow> nat list \<Rightarrow> (error + addr list) \<times> store" where
  "elim_loop_st h m n [] = (Inr m, h)"
| "elim_loop_st h m n (i # is) =
     (case elim_step_st h m n i of
        (Inl e, h') \<Rightarrow> (Inl e, h')
      | (Inr m', h') \<Rightarrow> elim_loop_st h' m' n is)"

definition solveLinearSystem_st :: "store \<Rightarrow> addr list \<Rightarrow> addr \<Rightarrow> (error + addr) \<times> store" where
  "solveLinearSystem_st h matrixA vectorB =
     (let n = length matrixA;
          (h0, m) = augment_st h matrixA vectorB
      in case elim_loop_st h0 m n [0..<n] of
           (Inl e, h1) \<Rightarrow> (Inl e, h1)
         | (Inr m', h1) \<Rightarrow> (Inr (length h1), h1 @ [map (\<lambda>i. entry_at h1 m' i n) [0..<n]]))"

section \<open>calculatePolynomialRegression and evaluatePolynomial\<close>

text \<open>
  The local arrays \<^verbatim>\<open>X\<close>, \<^verbatim>\<open>Xt\<close>, \<^verbatim>\<open>XtX\<close> and \<^verbatim>\<open>XtY\<close> are built by nested counting
  loops; each accumulating loop \<^verbatim>\<open>sum = 0; for (...) sum += ...\<close> is a \<open>fold\<close>.
  With \<^verbatim>\<open>n = degree + 1\<close> not positive no loop body runs, which is \<open>nat (degree + 1) = 0\<close>.
\<close>

definition design_X :: "point list \<Rightarrow> nat \<Rightarrow> matrix" where
  "design_X points n = map (\<lambda>p. map (\<lambda>j. x_of p ^ j) [0..<n]) points"

definition transpose_Xt :: "matrix \<Rightarrow> nat \<Rightarrow> nat \<Rightarrow> matrix" where
  "transpose_Xt X n numPoints = map (\<lambda>i. map (\<lambda>j. X ! j ! i) [0..<numPoints]) [0..<n]"

definition gram_XtX :: "matrix \<Rightarrow> matrix \<Rightarrow> nat \<Rightarrow> nat \<Rightarrow> matrix" where
  "gram_XtX Xt X n numPoints =
     map (\<lambda>i. map (\<lambda>j. fold (\<lambda>k sum. sum + Xt ! i ! k * X ! k ! j) [0..<numPoints] 0) [0..<n])
       [0..<n]"

definition moment_XtY :: "matrix \<Rightarrow> real list \<Rightarrow> nat \<Rightarrow> nat \<Rightarrow> real list" where
  "moment_XtY Xt Y n numPoints =
     map (\<lambda>i. fold (\<lambda>j sum. sum + Xt ! i ! j * Y ! j) [0..<numPoints] 0) [0..<n]"

definition calculatePolynomialRegression :: "point list \<Rightarrow> int \<Rightarrow> error + real list" where
  "calculatePolynomialRegression points degree =
     (let n = nat (degree + 1);
          numPoints = length points;
          X = design_X points n;
          Y = map y_of points;
          Xt = transpose_Xt X n numPoints;
          XtX = gram_XtX Xt X n numPoints;
          XtY = moment_XtY Xt Y n numPoints
      in solveLinearSystem XtX XtY)"

definition evaluatePolynomial :: "real list \<Rightarrow> real \<Rightarrow> real" where
  "evaluatePolynomial coefficients x =
     fold (\<lambda>i result. result + coefficients ! i * x ^ i) [0..<length coefficients] 0"

section \<open>findBestFitPolynomial and its caller\<close>

datatype AutoFitMethod = BIC | AIC

text \<open>
  \<^verbatim>\<open>bestScore\<close> starts at \<^verbatim>\<open>Infinity\<close> and may be set to \<^verbatim>\<open>-Infinity\<close>; a computed score is
  a finite number, or \<^verbatim>\<open>Infinity\<close> when the residual sum of squares is \<^verbatim>\<open>Infinity\<close>.
  \<open>score_less\<close> is \<^verbatim>\<open><\<close> on these values.
\<close>

datatype score = NegInfinity | Finite real | Infinity

fun score_less :: "score \<Rightarrow> score \<Rightarrow> bool" where
  "score_less (Finite a) (Finite b) = (a < b)"
| "score_less NegInfinity NegInfinity = False"
| "score_less NegInfinity _ = True"
| "score_less Infinity _ = False"
| "score_less (Finite a) Infinity = True"
| "score_less (Finite a) NegInfinity = False"

text \<open>
  The three \<^verbatim>\<open>let\<close> variables of the sweep. \<open>attempted\<close> is a ghost field, absent from
  the source: the degrees for which the \<^verbatim>\<open>try\<close> block was entered, in order.
\<close>

record sweep_state =
  bestScore :: score
  bestDegree :: int
  bestCoefficients :: "real list"
  attempted :: "int list"

text \<open>The residual sum of squares, \<^verbatim>\<open>rss = 0; for (const point of points) rss += ...\<close>.\<close>

definition residual_rss :: "point list \<Rightarrow> real list \<Rightarrow> real" where
  "residual_rss points coefficients =
     fold (\<lambda>point rss. rss + (y_of point - evaluatePolynomial coefficients (x_of point)) ^ 2)
       points 0"

text \<open>
  \<open>residual_rss\<close> is the exact sum. In the source every square and every partial sum is
  a double, and a value at or beyond \<open>2 ^ 1024 - 2 ^ 970\<close>, the least real that rounds to
  \<^verbatim>\<open>Infinity\<close>, is \<^verbatim>\<open>Infinity\<close>. The terms are not negative, so a sum in that range is
  \<^verbatim>\<open>Infinity\<close> in the source. The test \<^verbatim>\<open>rss <= 1e-10\<close> is then false, and the score
  \<^verbatim>\<open>n * Math.log(rss / n) + ...\<close> is \<^verbatim>\<open>Infinity\<close>, which is not less than the initial
  \<^verbatim>\<open>bestScore\<close>. Rounding can take the source's \<^verbatim>\<open>rss\<close> there from a smaller exact sum;
  that is not modelled.
\<close>

definition double_overflow :: "real \<Rightarrow> bool" where
  "double_overflow r \<longleftrightarrow> 2 ^ 1024 - 2 ^ 970 \<le> r"

definition information_score :: "AutoFitMethod \<Rightarrow> nat \<Rightarrow> int \<Rightarrow> real \<Rightarrow> score" where
  "information_score method n degree rss =
     (let k = degree + 1
      in if double_overflow rss then Infinity
         else if method = AIC then Finite (real n * ln (rss / real n) + 2 * real_of_int k)
         else Finite (real n * ln (rss / real n) + real_of_int k * ln (real n)))"

text \<open>
  The body of the \<^verbatim>\<open>try\<close> block for one degree. The \<^verbatim>\<open>catch\<close> only logs, so a failed
  regression leaves the three variables as they were.
\<close>

definition try_degree :: "point list \<Rightarrow> AutoFitMethod \<Rightarrow> int \<Rightarrow> sweep_state \<Rightarrow> sweep_state" where
  "try_degree points method degree st =
     (case calculatePolynomialRegression points degree of
        Inl e \<Rightarrow> st
      | Inr coefficients \<Rightarrow>
          (let rss = residual_rss points coefficients
           in if rss \<le> 1 / 10 ^ 10
              then (if bestDegree st = - 1
                    then st\<lparr>bestScore := NegInfinity, bestDegree := degree,
                            bestCoefficients := coefficients\<rparr>
                    else st)
              else (let score = information_score method (length points) degree rss
                    in if score_less score (bestScore st)
                       then st\<lparr>bestScore := score, bestDegree := degree,
                               bestCoefficients := coefficients\<rparr>
                       else st)))"

text \<open>\<^verbatim>\<open>for (let degree = 1; degree <= maxDegreeToTest; degree++)\<close>, from the current degree.\<close>

function sweep :: "point list \<Rightarrow> AutoFitMethod \<Rightarrow> int \<Rightarrow> int \<Rightarrow> sweep_state \<Rightarrow> sweep_state" where
  "sweep points method degree maxDegreeToTest st =
     (if degree \<le> maxDegreeToTest
      then sweep points method (degree + 1) maxDegreeToTest
             (try_degree points method degree (st\<lparr>attempted := attempted st @ [degree]\<rparr>))
      else st)"
  by pat_completeness auto
termination
  by (relation "measure (\<lambda>(points, method, degree, maxDegreeToTest, st). nat (maxDegreeToTest + 1 - degree))")
    auto

declare sweep.simps [simp del]

text \<open>The variables before the loop, and \<^verbatim>\<open>Math.min(20, n - 1)\<close>.\<close>

definition sweep_start :: sweep_state where
  "sweep_start = \<lparr>bestScore = Infinity, bestDegree = - 1, bestCoefficients = [], attempted = []\<rparr>"

definition maxDegreeToTest :: "point list \<Rightarrow> int" where
  "maxDegreeToTest points = (let n = int (length points) in min 20 (n - 1))"

definition findBestFitPolynomial ::
  "point list \<Rightarrow> AutoFitMethod \<Rightarrow> error + (int \<times> real list)" where
  "findBestFitPolynomial points method =
     (if maxDegreeToTest points < 1 then Inl (InsufficientDataError InSweep)
      else (let st = sweep points method 1 (maxDegreeToTest points) sweep_start
            in if bestDegree st = - 1 then Inl NoModelFoundError
               else Inr (bestDegree st, bestCoefficients st)))"

text \<open>
  \<^verbatim>\<open>handleTrain\<close> after its input text has been parsed into points: the fit it computes, or
  the error whose message it shows.
\<close>

definition handleTrain ::
  "point list \<Rightarrow> int \<Rightarrow> bool \<Rightarrow> AutoFitMethod \<Rightarrow> error + (int \<times> real list)" where
  "handleTrain parsedPoints selectedDegree isAuto autoFitMethod =
     (if isAuto
      then (if length parsedPoints < 2 then Inl (InsufficientDataError InAutoMode)
            else findBestFitPolynomial parsedPoints autoFitMethod)
      else (if int (length parsedPoints) < selectedDegree + 1
            then Inl (InsufficientDataError InExplicitMode)
            else (case calculatePolynomialRegression parsedPoints selectedDegree of
                    Inl e \<Rightarrow> Inl e
                  | Inr coefficients \<Rightarrow> Inr (selectedDegree, coefficients))))"

section \<open>PrettyFormula\<close>

text \<open>
  The component returns React elements, not a string. \<open>part\<close> is one element pushed onto
  \<^verbatim>\<open>parts\<close>. The two number formats are kept symbolic: \<open>Exponential2 a\<close> stands for
  \<^verbatim>\<open>a.toExponential(2)\<close> and \<open>Precision3 a\<close> for \<^verbatim>\<open>Number(a.toPrecision(3))\<close>.
\<close>

datatype shown_number = Exponential2 real | Precision3 real

datatype part =
    InnerSign string          \<comment> \<open>\<^verbatim>\<open><span className="mx-1">\<close> with \<^verbatim>\<open>+\<close> or \<^verbatim>\<open>-\<close>\<close>
  | LeadingMinus              \<comment> \<open>\<^verbatim>\<open><span className="mr-1">-</span>\<close>\<close>
  | Coeff shown_number        \<comment> \<open>\<^verbatim>\<open><span>{formattedCoeff}</span>\<close>\<close>
  | Var_x                     \<comment> \<open>\<^verbatim>\<open><em>x</em>\<close>\<close>
  | Superscript nat                   \<comment> \<open>\<^verbatim>\<open><sup>{power}</sup>\<close>\<close>

datatype rendered =
    PlainZero                 \<comment> \<open>\<^verbatim>\<open><span>f(x) = 0</span>\<close>\<close>
  | HeadZero                  \<comment> \<open>\<^verbatim>\<open><div><em>f(x) =</em><span>0</span></div>\<close>\<close>
  | HeadParts "part list"     \<comment> \<open>\<^verbatim>\<open><div><em>f(x) =</em>{parts}</div>\<close>\<close>

text \<open>The callback of \<^verbatim>\<open>forEach\<close>, with \<^verbatim>\<open>parts\<close> passed through.\<close>

definition push_term :: "nat \<Rightarrow> part list \<Rightarrow> real \<times> nat \<Rightarrow> part list" where
  "push_term highestPower parts ci =
     (let coeff = fst ci; index = snd ci; power = highestPower - index
      in if \<bar>coeff\<bar> < 1 / 10 ^ 9 then parts
         else
           (let isFirstTerm = (length parts = 0);
                absCoeff = \<bar>coeff\<bar>;
                parts1 = (if \<not> isFirstTerm then parts @ [InnerSign (if coeff > 0 then ''+'' else ''-'')]
                          else if coeff < 0 then parts @ [LeadingMinus]
                          else parts);
                showCoeff = (\<bar>absCoeff - 1\<bar> > 1 / 10 ^ 9 \<or> power = 0);
                parts2 = (if showCoeff
                          then parts1 @ [Coeff (if absCoeff > 1000 then Exponential2 absCoeff
                                                else Precision3 absCoeff)]
                          else parts1)
            in if power > 0
               then (if power > 1 then parts2 @ [Var_x, Superscript power] else parts2 @ [Var_x])
               else parts2))"

definition PrettyFormula :: "real list \<Rightarrow> rendered" where
  "PrettyFormula coefficients =
     (if length coefficients = 0 then PlainZero
      else
        (let reversedCoefficients = rev coefficients;
             highestPower = length reversedCoefficients - 1;
             parts = foldl (push_term highestPower) []
                       (zip reversedCoefficients [0..<length reversedCoefficients])
         in if length parts = 0 then HeadZero else HeadParts parts))"

section \<open>Notions used to state and prove the properties\<close>

subsection \<open>Linear systems\<close>

text \<open>
  The contract of \<^verbatim>\<open>solveLinearSystem\<close> is for a square matrix and a vector of the same
  size; its only caller passes \<^verbatim>\<open>XtX\<close> and \<^verbatim>\<open>XtY\<close>, which have this shape.
  \<open>mat_vec A v\<close> is the product \<open>A v\<close>.
\<close>

definition square_system :: "matrix \<Rightarrow> real list \<Rightarrow> bool" where
  "square_system A b \<longleftrightarrow> (\<forall>row \<in> set A. length row = length A) \<and> length b = length A"

definition mat_vec :: "matrix \<Rightarrow> real list \<Rightarrow> real list" where
  "mat_vec A v = map (\<lambda>row. \<Sum>j<length row. row ! j * v ! j) A"

text \<open>
  The pivot the specification describes for column \<open>i\<close> of a working matrix: the largest
  absolute value in that column among the rows \<open>i, ..., n - 1\<close>. \<open>small_pivot_at A b i\<close>
  says that the elimination reaches column \<open>i\<close> and finds this value below \<^verbatim>\<open>1e-10\<close>.
\<close>

definition selected_pivot :: "matrix \<Rightarrow> nat \<Rightarrow> nat \<Rightarrow> real" where
  "selected_pivot m n i = Max ((\<lambda>k. \<bar>entry m k i\<bar>) ` {i..<n})"

definition small_pivot_at :: "matrix \<Rightarrow> real list \<Rightarrow> nat \<Rightarrow> bool" where
  "small_pivot_at A b i =
     (case elim_loop (augment A b) (length A) [0..<i] of
        Inl e \<Rightarrow> False
      | Inr m \<Rightarrow> selected_pivot m (length A) i < 1 / 10 ^ 10)"

text \<open>
  The working matrix has \<open>n\<close> rows of \<open>n + 1\<close> entries. In exact arithmetic the loop keeps
  an invariant: the first \<open>i\<close> columns are unit columns, and every solution of the current
  system solves the system the loop started from.
\<close>

definition shape :: "matrix \<Rightarrow> nat list" where
  "shape m = map length m"

definition aug_shape :: "nat \<Rightarrow> matrix \<Rightarrow> bool" where
  "aug_shape n m \<longleftrightarrow> shape m = replicate n (Suc n)"

definition unit_cols :: "nat \<Rightarrow> nat \<Rightarrow> matrix \<Rightarrow> bool" where
  "unit_cols n i m \<longleftrightarrow> (\<forall>c<i. \<forall>r<n. entry m r c = (if r = c then 1 else 0))"

definition satisfies :: "nat \<Rightarrow> matrix \<Rightarrow> (nat \<Rightarrow> real) \<Rightarrow> bool" where
  "satisfies n m x \<longleftrightarrow> (\<forall>r<n. (\<Sum>c<n. entry m r c * x c) = entry m r n)"

subsection \<open>The store\<close>

text \<open>
  \<open>extends h0 h\<close>: every array of \<open>h0\<close> is in \<open>h\<close> at the same address with the same
  content. \<open>rows_of h m\<close> reads the working matrix out of the store.
\<close>

definition extends :: "store \<Rightarrow> store \<Rightarrow> bool" where
  "extends h0 h \<longleftrightarrow> take (length h0) h = h0"

definition fresh_rows :: "store \<Rightarrow> addr list \<Rightarrow> bool" where
  "fresh_rows h0 m \<longleftrightarrow> (\<forall>a \<in> set m. length h0 \<le> a)"

definition rows_of :: "store \<Rightarrow> addr list \<Rightarrow> matrix" where
  "rows_of h m = map ((!) h) m"

definition valid_rows :: "store \<Rightarrow> addr list \<Rightarrow> bool" where
  "valid_rows h m \<longleftrightarrow> distinct m \<and> (\<forall>a \<in> set m. a < length h)"

subsection \<open>Regression\<close>

text \<open>The arguments \<^verbatim>\<open>XtX\<close> and \<^verbatim>\<open>XtY\<close> that the regression passes to the solver.\<close>

definition normal_XtX :: "point list \<Rightarrow> nat \<Rightarrow> matrix" where
  "normal_XtX points n =
     gram_XtX (transpose_Xt (design_X points n) n (length points)) (design_X points n) n (length points)"

definition normal_XtY :: "point list \<Rightarrow> nat \<Rightarrow> real list" where
  "normal_XtY points n =
     moment_XtY (transpose_Xt (design_X points n) n (length points)) (map y_of points) n (length points)"

subsection \<open>The sweep\<close>

text \<open>
  \<open>degree_score\<close> is the score the sweep computes for a fitted degree. A degree is
  \<open>unusable\<close> when the sweep cannot accept it even as the first one: its regression fails,
  or its residual sum of squares is \<^verbatim>\<open>Infinity\<close>. The invariant before degree \<open>d\<close> is
  tried: either nothing is accepted and every earlier degree is unusable, or the accepted
  degree is the first usable one and has a near-perfect fit, or its score is not above
  the score of any earlier degree that is not near-perfect, and below the score of every
  such lower degree.
\<close>

definition degree_score :: "point list \<Rightarrow> AutoFitMethod \<Rightarrow> int \<Rightarrow> real list \<Rightarrow> score" where
  "degree_score points method d c = information_score method (length points) d (residual_rss points c)"

definition unusable :: "point list \<Rightarrow> int \<Rightarrow> bool" where
  "unusable points d =
     (case calculatePolynomialRegression points d of
        Inl e \<Rightarrow> True
      | Inr c \<Rightarrow> double_overflow (residual_rss points c))"

definition all_unusable :: "point list \<Rightarrow> int \<Rightarrow> bool" where
  "all_unusable points d \<longleftrightarrow> (\<forall>d'. 1 \<le> d' \<and> d' < d \<longrightarrow> unusable points d')"

definition min_scored :: "point list \<Rightarrow> AutoFitMethod \<Rightarrow> int \<Rightarrow> real list \<Rightarrow> int \<Rightarrow> bool" where
  "min_scored points method b cb d \<longleftrightarrow>
     (\<forall>d' c'. 1 \<le> d' \<and> d' < d \<and> calculatePolynomialRegression points d' = Inr c' \<and>
         \<not> residual_rss points c' \<le> 1 / 10 ^ 10 \<longrightarrow>
         \<not> score_less (degree_score points method d' c') (degree_score points method b cb) \<and>
         (d' < b \<longrightarrow> score_less (degree_score points method b cb) (degree_score points method d' c')))"

definition sweep_inv :: "point list \<Rightarrow> AutoFitMethod \<Rightarrow> int \<Rightarrow> sweep_state \<Rightarrow> bool" where
  "sweep_inv points method d st \<longleftrightarrow>
     (bestDegree st = - 1 \<and> bestScore st = Infinity \<and> all_unusable points d)
     \<or> (1 \<le> bestDegree st \<and> bestDegree st < d \<and>
         calculatePolynomialRegression points (bestDegree st) = Inr (bestCoefficients st) \<and>
         \<not> double_overflow (residual_rss points (bestCoefficients st)) \<and>
         (if residual_rss points (bestCoefficients st) \<le> 1 / 10 ^ 10
          then bestScore st = NegInfinity \<and> all_unusable points (bestDegree st)
          else bestScore st = degree_score points method (bestDegree st) (bestCoefficients st) \<and>
               min_scored points method (bestDegree st) (bestCoefficients st) d))"

section \<open>Properties\<close>

subsection \<open>Shape and entries of the working matrix\<close>

lemma aug_shape_length: "aug_shape n m \<Longrightarrow> length m = n"
  by (metis aug_shape_def shape_def length_map length_replicate)

lemma aug_shape_row: "aug_shape n m \<Longrightarrow> r < n \<Longrightarrow> length (m ! r) = Suc n"
  by (metis aug_shape_def shape_def length_map length_replicate nth_map nth_replicate)

lemma shape_put: "shape (put m k j v) = shape m"
proof (cases "k < length m")
  case True
  then show ?thesis
    by (simp add: shape_def put_def map_update list_update_same_conv)
next
  case False
  then show ?thesis by (simp add: shape_def put_def list_update_beyond)
qed

lemma entry_put:
  "k < length m \<Longrightarrow> j < length (m ! k) \<Longrightarrow>
   entry (put m k j v) r c = (if r = k \<and> c = j then v else entry m r c)"
  by (auto simp: entry_def put_def nth_list_update)

lemma aug_put: "aug_shape n (put m k j v) = aug_shape n m"
  by (simp add: aug_shape_def shape_put)

lemma entry_put_aug:
  "aug_shape n m \<Longrightarrow> k < n \<Longrightarrow> j \<le> n \<Longrightarrow>
   entry (put m k j v) r c = (if r = k \<and> c = j then v else entry m r c)"
  by (simp add: entry_put aug_shape_length aug_shape_row)

subsection \<open>The steps of the elimination, entry by entry\<close>

lemma pivot_fold:
  "fold (\<lambda>k maxRow. if \<bar>entry m k i\<bar> > \<bar>entry m maxRow i\<bar> then k else maxRow) ks r = p \<Longrightarrow>
   p \<in> insert r (set ks) \<and> \<bar>entry m r i\<bar> \<le> \<bar>entry m p i\<bar> \<and>
   (\<forall>k \<in> set ks. \<bar>entry m k i\<bar> \<le> \<bar>entry m p i\<bar>)"
proof (induction ks arbitrary: r)
  case Nil
  then show ?case by simp
next
  case (Cons k ks)
  let ?r' = "if \<bar>entry m k i\<bar> > \<bar>entry m r i\<bar> then k else r"
  from Cons.prems have "fold (\<lambda>k maxRow. if \<bar>entry m k i\<bar> > \<bar>entry m maxRow i\<bar> then k else maxRow) ks ?r' = p"
    by simp
  from Cons.IH[OF this] show ?case
    by (auto split: if_splits)
qed

lemma find_pivot_range: "i < n \<Longrightarrow> i \<le> find_pivot m n i \<and> find_pivot m n i < n"
  using pivot_fold[of m i "[i + 1..<n]" i "find_pivot m n i"]
  by (auto simp: find_pivot_def)

lemma find_pivot_max:
  "i \<le> k \<Longrightarrow> k < n \<Longrightarrow> \<bar>entry m k i\<bar> \<le> \<bar>entry m (find_pivot m n i) i\<bar>"
  using pivot_fold[of m i "[i + 1..<n]" i "find_pivot m n i"]
  by (cases "k = i") (auto simp: find_pivot_def)

lemma shape_swap_rows:
  "aug_shape n m \<Longrightarrow> i < n \<Longrightarrow> p < n \<Longrightarrow> aug_shape n (swap_rows m i p)"
  by (simp add: aug_shape_def shape_def swap_rows_def list_eq_iff_nth_eq nth_list_update)

lemma entry_swap_rows:
  "aug_shape n m \<Longrightarrow> i < n \<Longrightarrow> p < n \<Longrightarrow>
   entry (swap_rows m i p) r c =
     (if r = p then entry m i c else if r = i then entry m p c else entry m r c)"
  by (auto simp: entry_def swap_rows_def nth_list_update aug_shape_length)

lemma normalize_fold_shape:
  "aug_shape n (fold (\<lambda>k m'. put m' i k (entry m' i k / entry m' i i)) ks m) = aug_shape n m"
  by (induction ks arbitrary: m) (simp_all add: aug_put)

lemma normalize_fold_entry:
  "aug_shape n m \<Longrightarrow> i < n \<Longrightarrow> distinct ks \<Longrightarrow> \<forall>k \<in> set ks. k \<le> n \<and> k \<noteq> i \<Longrightarrow>
   entry (fold (\<lambda>k m'. put m' i k (entry m' i k / entry m' i i)) ks m) r c =
     (if r = i \<and> c \<in> set ks then entry m i c / entry m i i else entry m r c)"
proof (induction ks arbitrary: m)
  case Nil
  then show ?case by simp
next
  case (Cons k ks)
  let ?m1 = "put m i k (entry m i k / entry m i i)"
  have s: "aug_shape n ?m1" using Cons.prems(1) by (simp add: aug_put)
  have e: "\<And>r c. entry ?m1 r c = (if r = i \<and> c = k then entry m i k / entry m i i else entry m r c)"
    using Cons.prems by (simp add: entry_put_aug)
  have "entry (fold (\<lambda>k m'. put m' i k (entry m' i k / entry m' i i)) ks ?m1) r c =
     (if r = i \<and> c \<in> set ks then entry ?m1 i c / entry ?m1 i i else entry ?m1 r c)"
    using Cons.prems by (intro Cons.IH[OF s]) auto
  moreover have "k \<notin> set ks" "k \<noteq> i" using Cons.prems by auto
  ultimately show ?case by (cases "r = i \<and> c = k") (auto simp: e)
qed

lemma shape_normalize_row: "aug_shape n (normalize_row m n i) = aug_shape n m"
  by (simp add: normalize_row_def aug_put normalize_fold_shape)

lemma entry_normalize_row:
  assumes "aug_shape n m" "i < n"
  shows "entry (normalize_row m n i) r c =
     (if r = i then (if c = i then 1 else if i < c \<and> c \<le> n then entry m i c / entry m i i else entry m i c)
      else entry m r c)"
proof -
  let ?m1 = "fold (\<lambda>k m'. put m' i k (entry m' i k / entry m' i i)) [i + 1..<n + 1] m"
  have s: "aug_shape n ?m1"
    using assms(1) normalize_fold_shape[of n i "[i + 1..<n + 1]" m] by blast
  have "entry ?m1 r c = (if r = i \<and> c \<in> set [i + 1..<n + 1] then entry m i c / entry m i i else entry m r c)" for r c
    using assms by (intro normalize_fold_entry) auto
  then have e: "entry ?m1 r c = (if r = i \<and> i < c \<and> c \<le> n then entry m i c / entry m i i else entry m r c)" for r c
    by auto
  have "entry (put ?m1 i i 1) r c = (if r = i \<and> c = i then 1 else entry ?m1 r c)"
    using s assms(2) by (intro entry_put_aug) auto
  then show ?thesis
    unfolding normalize_row_def by (simp only: e) auto
qed

lemma eliminate_row_fold_shape:
  "aug_shape n (fold (\<lambda>j m'. put m' k j (entry m' k j - f * entry m' i j)) js m) = aug_shape n m"
  by (induction js arbitrary: m) (simp_all add: aug_put)

lemma eliminate_row_fold_entry:
  "aug_shape n m \<Longrightarrow> k < n \<Longrightarrow> k \<noteq> i \<Longrightarrow> distinct js \<Longrightarrow> \<forall>j \<in> set js. j \<le> n \<Longrightarrow>
   entry (fold (\<lambda>j m'. put m' k j (entry m' k j - f * entry m' i j)) js m) r c =
     (if r = k \<and> c \<in> set js then entry m k c - f * entry m i c else entry m r c)"
proof (induction js arbitrary: m)
  case Nil
  then show ?case by simp
next
  case (Cons j js)
  let ?m1 = "put m k j (entry m k j - f * entry m i j)"
  have s: "aug_shape n ?m1" using Cons.prems(1) by (simp add: aug_put)
  have e: "\<And>r c. entry ?m1 r c = (if r = k \<and> c = j then entry m k j - f * entry m i j else entry m r c)"
    using Cons.prems by (simp add: entry_put_aug)
  have "entry (fold (\<lambda>j m'. put m' k j (entry m' k j - f * entry m' i j)) js ?m1) r c =
     (if r = k \<and> c \<in> set js then entry ?m1 k c - f * entry ?m1 i c else entry ?m1 r c)"
    using Cons.prems by (intro Cons.IH[OF s]) auto
  moreover have "j \<notin> set js" using Cons.prems by auto
  ultimately show ?case using \<open>k \<noteq> i\<close> by (cases "r = k \<and> c = j") (auto simp: e)
qed

lemma shape_eliminate_row: "aug_shape n (eliminate_row m n i k) = aug_shape n m"
  by (simp add: eliminate_row_def eliminate_row_fold_shape)

lemma entry_eliminate_row:
  "aug_shape n m \<Longrightarrow> k < n \<Longrightarrow> k \<noteq> i \<Longrightarrow>
   entry (eliminate_row m n i k) r c =
     (if r = k \<and> i \<le> c \<and> c \<le> n then entry m k c - entry m k i * entry m i c else entry m r c)"
  unfolding eliminate_row_def Let_def
  by (subst eliminate_row_fold_entry[where n = n]) auto

lemma eliminate_fold_shape:
  "aug_shape n (fold (\<lambda>k m'. if k \<noteq> i then eliminate_row m' n i k else m') ks m) = aug_shape n m"
  by (induction ks arbitrary: m) (simp_all add: shape_eliminate_row)

lemma eliminate_fold_entry:
  "aug_shape n m \<Longrightarrow> distinct ks \<Longrightarrow> \<forall>k \<in> set ks. k < n \<Longrightarrow>
   entry (fold (\<lambda>k m'. if k \<noteq> i then eliminate_row m' n i k else m') ks m) r c =
     (if r \<in> set ks \<and> r \<noteq> i \<and> i \<le> c \<and> c \<le> n then entry m r c - entry m r i * entry m i c
      else entry m r c)"
proof (induction ks arbitrary: m)
  case Nil
  then show ?case by simp
next
  case (Cons k ks)
  let ?m1 = "if k \<noteq> i then eliminate_row m n i k else m"
  have kn: "k < n" and kks: "k \<notin> set ks" using Cons.prems by auto
  have s: "aug_shape n ?m1" using Cons.prems(1) by (simp add: shape_eliminate_row)
  have other: "entry ?m1 r' c' = entry m r' c'" if "r' \<noteq> k" for r' c'
    using that Cons.prems(1) kn by (simp add: entry_eliminate_row)
  have self: "entry ?m1 k c' =
      (if k \<noteq> i \<and> i \<le> c' \<and> c' \<le> n then entry m k c' - entry m k i * entry m i c' else entry m k c')" for c'
    using Cons.prems(1) kn by (simp add: entry_eliminate_row)
  have pivot: "entry ?m1 i c' = entry m i c'" for c'
    using other[of i c'] by (cases "k = i") auto
  have IH: "entry (fold (\<lambda>k m'. if k \<noteq> i then eliminate_row m' n i k else m') ks ?m1) r c =
     (if r \<in> set ks \<and> r \<noteq> i \<and> i \<le> c \<and> c \<le> n then entry ?m1 r c - entry ?m1 r i * entry ?m1 i c
      else entry ?m1 r c)"
    using Cons.prems by (intro Cons.IH[OF s]) auto
  show ?case
  proof (cases "r = k")
    case True
    then show ?thesis using IH kks by (simp add: self)
  next
    case False
    then show ?thesis using IH by (simp add: other pivot)
  qed
qed

lemma shape_eliminate: "aug_shape n (eliminate m n i) = aug_shape n m"
  by (simp add: eliminate_def eliminate_fold_shape)

lemma entry_eliminate:
  "aug_shape n m \<Longrightarrow> r < n \<Longrightarrow>
   entry (eliminate m n i) r c =
     (if r \<noteq> i \<and> i \<le> c \<and> c \<le> n then entry m r c - entry m r i * entry m i c else entry m r c)"
  unfolding eliminate_def
  by (subst eliminate_fold_entry[where n = n]) auto

lemma aug_shape_augment:
  assumes "square_system A b"
  shows "aug_shape (length A) (augment A b)"
proof -
  have "length (A ! i) = length A" if "i < length A" for i
    using assms that by (simp add: square_system_def)
  then have "map length (augment A b) = replicate (length A) (Suc (length A))"
    by (intro nth_equalityI) (simp_all add: augment_def)
  then show ?thesis by (simp add: aug_shape_def shape_def)
qed

lemma entry_augment:
  assumes "square_system A b" "r < length A"
  shows "c < length A \<Longrightarrow> entry (augment A b) r c = A ! r ! c"
    and "entry (augment A b) r (length A) = b ! r"
proof -
  have "length (A ! r) = length A"
    using assms by (simp add: square_system_def)
  then show "c < length A \<Longrightarrow> entry (augment A b) r c = A ! r ! c"
    and "entry (augment A b) r (length A) = b ! r"
    using assms(2) by (simp_all add: entry_def augment_def nth_append)
qed

lemma elim_step_shape:
  assumes "aug_shape n m" "i < n" "elim_step m n i = Inr m'"
  shows "aug_shape n m'"
proof -
  have "find_pivot m n i < n" using find_pivot_range[OF assms(2)] by simp
  then have "aug_shape n (swap_rows m i (find_pivot m n i))"
    using assms by (simp add: shape_swap_rows)
  then show ?thesis using assms(3)
    by (auto simp: elim_step_def Let_def shape_eliminate shape_normalize_row split: if_splits)
qed

lemma elim_step_pivot:
  assumes "aug_shape n m" "i < n"
  shows "\<bar>entry (swap_rows m i (find_pivot m n i)) i i\<bar> = selected_pivot m n i"
proof -
  let ?p = "find_pivot m n i"
  have p: "i \<le> ?p" "?p < n" using find_pivot_range[OF assms(2)] by simp_all
  have "entry (swap_rows m i ?p) i i = entry m ?p i"
    using entry_swap_rows[OF assms p(2), of i i] by auto
  moreover have "Max ((\<lambda>k. \<bar>entry m k i\<bar>) ` {i..<n}) = \<bar>entry m ?p i\<bar>"
  proof (rule Max_eqI)
    show "finite ((\<lambda>k. \<bar>entry m k i\<bar>) ` {i..<n})" by simp
    show "\<bar>entry m ?p i\<bar> \<in> (\<lambda>k. \<bar>entry m k i\<bar>) ` {i..<n}" using p by auto
    fix y assume "y \<in> (\<lambda>k. \<bar>entry m k i\<bar>) ` {i..<n}"
    then show "y \<le> \<bar>entry m ?p i\<bar>" using find_pivot_max[of i _ n m] by auto
  qed
  ultimately show ?thesis by (simp add: selected_pivot_def)
qed

lemma elim_step_Inl_iff:
  assumes "aug_shape n m" "i < n"
  shows "elim_step m n i = Inl e \<longleftrightarrow> e = SingularMatrixError \<and> selected_pivot m n i < 1 / 10 ^ 10"
  using elim_step_pivot[OF assms] by (auto simp: elim_step_def Let_def)

lemma elim_loop_append:
  "elim_loop m n (xs @ ys) =
     (case elim_loop m n xs of Inl e \<Rightarrow> Inl e | Inr m' \<Rightarrow> elim_loop m' n ys)"
  by (induction xs arbitrary: m) (auto split: sum.splits)

lemma elim_loop_shape:
  "aug_shape n m \<Longrightarrow> \<forall>i \<in> set is. i < n \<Longrightarrow> elim_loop m n is = Inr m' \<Longrightarrow> aug_shape n m'"
proof (induction "is" arbitrary: m)
  case Nil
  then show ?case by simp
next
  case (Cons i "is")
  then obtain m1 where m1: "elim_step m n i = Inr m1" "elim_loop m1 n is = Inr m'"
    by (auto split: sum.splits)
  have "aug_shape n m1" using Cons.prems m1(1) by (auto intro: elim_step_shape)
  then show ?case using Cons.IH[of m1] Cons.prems(2) m1(2) by simp
qed

lemma elim_loop_Inl:
  "elim_loop m n is = Inl e \<Longrightarrow>
   \<exists>pre i post m'. is = pre @ i # post \<and> elim_loop m n pre = Inr m' \<and> elim_step m' n i = Inl e"
proof (induction "is" arbitrary: m)
  case Nil
  then show ?case by simp
next
  case (Cons i "is")
  show ?case
  proof (cases "elim_step m n i")
    case (Inl e')
    then have "e' = e" using Cons.prems by simp
    then have "i # is = [] @ i # is \<and> elim_loop m n [] = Inr m \<and> elim_step m n i = Inl e"
      using Inl by simp
    then show ?thesis by blast
  next
    case (Inr m1)
    then have "elim_loop m1 n is = Inl e" using Cons.prems by simp
    from Cons.IH[OF this] obtain pre j post m' where
      "is = pre @ j # post" "elim_loop m1 n pre = Inr m'" "elim_step m' n j = Inl e" by blast
    then have "i # is = (i # pre) @ j # post \<and> elim_loop m n (i # pre) = Inr m' \<and> elim_step m' n j = Inl e"
      using Inr by simp
    then show ?thesis by blast
  qed
qed

lemma upt_split:
  assumes "[0..<n] = pre @ i # post"
  shows "pre = [0..<i]" and "i < n"
proof -
  have len: "n = length pre + Suc (length post)"
    using arg_cong[OF assms, of length] by simp
  have "[0..<n] ! length pre = i" by (simp add: assms)
  moreover have "[0..<n] ! length pre = 0 + length pre"
    using len by (intro nth_upt) simp
  ultimately have i: "i = length pre" by simp
  then show "i < n" using len by simp
  have "take i [0..<n] = pre" by (simp add: assms i)
  then show "pre = [0..<i]" using \<open>i < n\<close> by (simp add: take_upt)
qed

lemma solve_Inl_iff:
  assumes sq: "square_system A b"
  shows "solveLinearSystem A b = Inl e \<longleftrightarrow>
     e = SingularMatrixError \<and>
     (\<exists>i<length A. \<exists>m. elim_loop (augment A b) (length A) [0..<i] = Inr m \<and>
        selected_pivot m (length A) i < 1 / 10 ^ 10)"
    (is "?L \<longleftrightarrow> ?R")
proof
  let ?n = "length A"
  assume ?L
  then have "elim_loop (augment A b) ?n [0..<?n] = Inl e"
    by (auto simp: solveLinearSystem_def Let_def split: sum.splits)
  from elim_loop_Inl[OF this] obtain pre i post m where
    sp: "[0..<?n] = pre @ i # post" and pre: "elim_loop (augment A b) ?n pre = Inr m"
    and st: "elim_step m ?n i = Inl e" by blast
  note ui = upt_split[OF sp]
  have "aug_shape ?n m"
    using elim_loop_shape[OF aug_shape_augment[OF sq] _ pre] ui by auto
  from elim_step_Inl_iff[OF this ui(2)] st pre ui show ?R by auto
next
  let ?n = "length A"
  assume ?R
  then obtain i m where i: "i < ?n" and pre: "elim_loop (augment A b) ?n [0..<i] = Inr m"
    and piv: "selected_pivot m ?n i < 1 / 10 ^ 10" and e: "e = SingularMatrixError" by blast
  have "aug_shape ?n m"
    using elim_loop_shape[OF aug_shape_augment[OF sq] _ pre] i by auto
  from elim_step_Inl_iff[OF this i] piv e have st: "elim_step m ?n i = Inl e" by simp
  have "[0..<?n] = [0..<i] @ i # [Suc i..<?n]"
    using i upt_add_eq_append[of 0 i "?n - i"] by (simp add: upt_conv_Cons)
  then have "elim_loop (augment A b) ?n [0..<?n] = Inl e"
    using pre st by (simp add: elim_loop_append)
  then show ?L by (simp add: solveLinearSystem_def Let_def)
qed

lemma solve_fails_iff:
  assumes "square_system A b"
  shows "solveLinearSystem A b = Inl e \<longleftrightarrow>
     e = SingularMatrixError \<and> (\<exists>i<length A. small_pivot_at A b i)"
proof -
  have "small_pivot_at A b i \<longleftrightarrow>
      (\<exists>m. elim_loop (augment A b) (length A) [0..<i] = Inr m \<and>
         selected_pivot m (length A) i < 1 / 10 ^ 10)" for i
    by (auto simp: small_pivot_at_def split: sum.splits)
  then show ?thesis by (simp add: solve_Inl_iff[OF assms])
qed


text \<open>
  Claim C3. For a square system, \<^verbatim>\<open>solveLinearSystem\<close> fails, and then with the singular
  matrix error, if and only if at some pivot column \<open>i\<close> the largest absolute value in
  column \<open>i\<close> among the rows from \<open>i\<close> on is below \<open>1 / 10 ^ 10\<close>. The entry the code
  compares against this fixed bound, after its pivot search and row swap, has exactly
  that largest absolute value.
\<close>

theorem solveLinearSystem_fails_iff:
  assumes "square_system A b"
  shows "(solveLinearSystem A b = Inl e \<longleftrightarrow>
        e = SingularMatrixError \<and> (\<exists>i<length A. small_pivot_at A b i)) \<and>
     (\<forall>i<length A. \<forall>m. elim_loop (augment A b) (length A) [0..<i] = Inr m \<longrightarrow>
        \<bar>entry (swap_rows m i (find_pivot m (length A) i)) i i\<bar> = selected_pivot m (length A) i)"
proof (intro conjI allI impI)
  show "solveLinearSystem A b = Inl e \<longleftrightarrow>
        e = SingularMatrixError \<and> (\<exists>i<length A. small_pivot_at A b i)"
    using assms by (rule solve_fails_iff)
next
  fix i m
  assume i: "i < length A" and pre: "elim_loop (augment A b) (length A) [0..<i] = Inr m"
  have "aug_shape (length A) m"
    using elim_loop_shape[OF aug_shape_augment[OF assms] _ pre] i by auto
  then show "\<bar>entry (swap_rows m i (find_pivot m (length A) i)) i i\<bar> = selected_pivot m (length A) i"
    using i by (rule elim_step_pivot)
qed

theorem solveLinearSystem_fails_iff_witness:
  "square_system [[2, 0], [0, 0]] [3, 5] \<and>
   small_pivot_at [[2, 0], [0, 0]] [3, 5] 1 \<and>
   solveLinearSystem [[2, 0], [0, 0]] [3, 5] = Inl SingularMatrixError \<and>
   elim_loop (augment [[2, 0], [0, 0]] [3, 5]) (length [[2, 0], [0, 0 :: real]]) [0..<1] =
     Inr [[1, 0, 3 / 2], [0, 0, 5]] \<and>
   selected_pivot [[1, 0, 3 / 2], [0, 0, 5]] (length [[2, 0], [0, 0 :: real]]) 1 = 0"
proof -
  have sq: "square_system [[2, 0], [0, 0]] [3, 5]" by (simp add: square_system_def)
  have p1: "small_pivot_at [[2, 0], [0, 0]] [3, 5] 1" by code_simp
  have pre: "elim_loop (augment [[2, 0], [0, 0]] [3, 5]) (length [[2, 0], [0, 0 :: real]]) [0..<1] =
      Inr [[1, 0, 3 / 2], [0, 0, 5]]"
    by code_simp
  have sw: "\<bar>entry (swap_rows [[1, 0, 3 / 2], [0, 0, 5]] 1
      (find_pivot [[1, 0, 3 / 2], [0, 0, 5]] (length [[2, 0], [0, 0 :: real]]) 1)) 1 1\<bar> = 0"
    by code_simp
  have one: "1 < length [[2, 0], [0, 0 :: real]]" by simp
  note th = solveLinearSystem_fails_iff[OF sq, of SingularMatrixError]
  have "\<exists>i<length [[2, 0], [0, 0 :: real]]. small_pivot_at [[2, 0], [0, 0]] [3, 5] i"
    using p1 one by blast
  then have fails: "solveLinearSystem [[2, 0], [0, 0]] [3, 5] = Inl SingularMatrixError"
    using th by blast
  have "\<bar>entry (swap_rows [[1, 0, 3 / 2], [0, 0, 5]] 1
      (find_pivot [[1, 0, 3 / 2], [0, 0, 5]] (length [[2, 0], [0, 0 :: real]]) 1)) 1 1\<bar> =
      selected_pivot [[1, 0, 3 / 2], [0, 0, 5]] (length [[2, 0], [0, 0 :: real]]) 1"
    using th one pre by blast
  then have "selected_pivot [[1, 0, 3 / 2], [0, 0, 5]] (length [[2, 0], [0, 0 :: real]]) 1 = 0"
    using sw by simp
  then show ?thesis using sq p1 fails pre by blast
qed

subsection \<open>The regression\<close>

lemma regression_solve:
  "calculatePolynomialRegression points d =
     solveLinearSystem (normal_XtX points (nat (d + 1))) (normal_XtY points (nat (d + 1)))"
  by (simp add: calculatePolynomialRegression_def normal_XtX_def normal_XtY_def Let_def)

lemma design_X_nth:
  "k < length points \<Longrightarrow> j < n \<Longrightarrow> design_X points n ! k ! j = x_of (points ! k) ^ j"
  by (simp add: design_X_def)

lemma transpose_Xt_nth:
  "i < n \<Longrightarrow> k < length points \<Longrightarrow>
   transpose_Xt (design_X points n) n (length points) ! i ! k = x_of (points ! k) ^ i"
  by (simp add: transpose_Xt_def design_X_nth)

lemma normal_square: "square_system (normal_XtX points n) (normal_XtY points n)"
  by (auto simp: square_system_def normal_XtX_def normal_XtY_def gram_XtX_def moment_XtY_def)





subsection \<open>Runs on concrete data\<close>



lemma fit_parabola_1:
  "calculatePolynomialRegression [Point 0 0, Point 1 1, Point 2 4] 1 = Inr [- (1 / 3), 2]"
  by code_simp

lemma fit_parabola_2:
  "calculatePolynomialRegression [Point 0 0, Point 1 1, Point 2 4] 2 = Inr [0, 0, 1]"
  by code_simp

lemma rss_parabola_1: "residual_rss [Point 0 0, Point 1 1, Point 2 4] [- (1 / 3), 2] = 2 / 3"
  by code_simp

lemma rss_parabola_2: "residual_rss [Point 0 0, Point 1 1, Point 2 4] [0, 0, 1] = 0"
  by code_simp

lemma fit_line_1:
  "calculatePolynomialRegression [Point 0 0, Point 1 1, Point 2 2] 1 = Inr [0, 1]"
  by code_simp

lemma fit_line_2:
  "calculatePolynomialRegression [Point 0 0, Point 1 1, Point 2 2] 2 = Inr [0, 1, 0]"
  by code_simp

lemma rss_line_1: "residual_rss [Point 0 0, Point 1 1, Point 2 2] [0, 1] = 0"
  by code_simp

lemma rss_line_2: "residual_rss [Point 0 0, Point 1 1, Point 2 2] [0, 1, 0] = 0"
  by code_simp

lemma fit_odd_1:
  "calculatePolynomialRegression [Point (- 2) (- 1), Point (- 1) (- 2), Point 1 2, Point 2 1] 1 = Inr [0, 4 / 5]"
  by code_simp

lemma fit_odd_2:
  "calculatePolynomialRegression [Point (- 2) (- 1), Point (- 1) (- 2), Point 1 2, Point 2 1] 2 = Inr [0, 4 / 5, 0]"
  by code_simp

lemma fit_odd_3:
  "calculatePolynomialRegression [Point (- 2) (- 1), Point (- 1) (- 2), Point 1 2, Point 2 1] 3 = Inr [0, 5 / 2, 0, - (1 / 2)]"
  by code_simp

lemma rss_odd_1:
  "residual_rss [Point (- 2) (- 1), Point (- 1) (- 2), Point 1 2, Point 2 1] [0, 4 / 5] = 18 / 5"
  by code_simp

lemma rss_odd_2:
  "residual_rss [Point (- 2) (- 1), Point (- 1) (- 2), Point 1 2, Point 2 1] [0, 4 / 5, 0] = 18 / 5"
  by code_simp

lemma rss_odd_3:
  "residual_rss [Point (- 2) (- 1), Point (- 1) (- 2), Point 1 2, Point 2 1] [0, 5 / 2, 0, - (1 / 2)] = 0"
  by code_simp




subsection \<open>The degree sweep\<close>

lemma attempted_try_degree: "attempted (try_degree points meth d st) = attempted st"
  by (simp add: try_degree_def Let_def split: sum.splits)

lemma sweep_unfold:
  "d \<le> maxD \<Longrightarrow> sweep points meth d maxD st =
     sweep points meth (d + 1) maxD (try_degree points meth d (st\<lparr>attempted := attempted st @ [d]\<rparr>))"
  by (subst sweep.simps) simp

lemma sweep_done: "maxD < d \<Longrightarrow> sweep points meth d maxD st = st"
  by (subst sweep.simps) simp

lemma attempted_sweep: "attempted (sweep points meth d maxD st) = attempted st @ [d..maxD]"
proof (induction points meth d maxD st rule: sweep.induct)
  case (1 points meth d maxD st)
  show ?case
  proof (cases "d \<le> maxD")
    case True
    then show ?thesis
      using "1.IH"[OF True] by (simp add: sweep_unfold attempted_try_degree upto_rec1)
  next
    case False
    then show ?thesis by (simp add: sweep_done)
  qed
qed

lemma sweep_split:
  "a \<le> b + 1 \<Longrightarrow> b \<le> c \<Longrightarrow>
   sweep points meth a c st = sweep points meth (b + 1) c (sweep points meth a b st)"
proof (induction points meth a b st rule: sweep.induct)
  case (1 points meth a b st)
  show ?case
  proof (cases "a \<le> b")
    case True
    let ?st1 = "try_degree points meth a (st\<lparr>attempted := attempted st @ [a]\<rparr>)"
    have ac: "a \<le> c" using True "1.prems" by simp
    have "sweep points meth a c st = sweep points meth (a + 1) c ?st1"
      using ac by (rule sweep_unfold)
    also have "\<dots> = sweep points meth (b + 1) c (sweep points meth (a + 1) b ?st1)"
      using True "1.prems" by (intro "1.IH") simp_all
    also have "sweep points meth (a + 1) b ?st1 = sweep points meth a b st"
      using True by (rule sweep_unfold[symmetric])
    finally show ?thesis .
  next
    case False
    then have "a = b + 1" using "1.prems" by simp
    then show ?thesis by (simp add: sweep_done)
  qed
qed

lemma score_less_irrefl: "\<not> score_less a a"
  by (cases a) simp_all

lemma score_less_asym: "score_less a b \<Longrightarrow> \<not> score_less b a"
  by (cases a; cases b) simp_all

lemma score_less_le_trans: "score_less a b \<Longrightarrow> \<not> score_less c b \<Longrightarrow> score_less a c"
  by (cases a; cases b; cases c) simp_all

lemma score_less_NegInfinity: "\<not> score_less a NegInfinity"
  by (cases a) simp_all

lemma score_less_Infinity: "\<not> score_less a Infinity \<longleftrightarrow> a = Infinity"
  by (cases a) simp_all

lemma degree_score_Infinity:
  "degree_score points meth d c = Infinity \<longleftrightarrow> double_overflow (residual_rss points c)"
  by (simp add: degree_score_def information_score_def Let_def)

lemma degree_score_not_NegInfinity: "degree_score points meth d c \<noteq> NegInfinity"
  by (simp add: degree_score_def information_score_def Let_def)

lemma tiny_no_overflow: "r \<le> 1 / 10 ^ 10 \<Longrightarrow> \<not> double_overflow r"
proof -
  have "(1 :: real) \<le> 2 ^ 970" by (rule one_le_power) simp
  moreover have "(2 :: real) ^ 1024 = 2 ^ 54 * 2 ^ 970" by (simp add: power_add[symmetric])
  ultimately have "(1 :: real) \<le> 2 ^ 1024 - 2 ^ 970" by simp
  moreover assume "r \<le> 1 / 10 ^ 10"
  then have "r < 1" by (rule le_less_trans) simp
  ultimately show ?thesis by (simp add: double_overflow_def)
qed

lemma elim_step_error: "elim_step m n i = Inl e \<Longrightarrow> e = SingularMatrixError"
  by (auto simp: elim_step_def Let_def split: if_splits)

lemma elim_loop_error: "elim_loop m n is = Inl e \<Longrightarrow> e = SingularMatrixError"
  by (induction "is" arbitrary: m) (auto split: sum.splits dest: elim_step_error)

lemma solve_error: "solveLinearSystem A b = Inl e \<Longrightarrow> e = SingularMatrixError"
  by (auto simp: solveLinearSystem_def Let_def split: sum.splits dest: elim_loop_error)

lemma regression_error: "calculatePolynomialRegression points d = Inl e \<Longrightarrow> e = SingularMatrixError"
  by (auto simp: calculatePolynomialRegression_def Let_def dest: solve_error)

lemma isl_regression:
  "isl (calculatePolynomialRegression points d) \<longleftrightarrow>
   calculatePolynomialRegression points d = Inl SingularMatrixError"
  by (cases "calculatePolynomialRegression points d") (auto dest: regression_error)


lemma all_unusable_step:
  "1 \<le> d \<Longrightarrow> all_unusable points (d + 1) \<longleftrightarrow> all_unusable points d \<and> unusable points d"
proof -
  have "d' < d + 1 \<longleftrightarrow> d' < d \<or> d' = d" for d' :: int by auto
  then show "1 \<le> d \<Longrightarrow> ?thesis" unfolding all_unusable_def by auto
qed

lemma min_scored_step:
  "1 \<le> d \<Longrightarrow> min_scored points meth b cb (d + 1) \<longleftrightarrow>
     min_scored points meth b cb d \<and>
     (\<forall>c'. calculatePolynomialRegression points d = Inr c' \<and> \<not> residual_rss points c' \<le> 1 / 10 ^ 10 \<longrightarrow>
         \<not> score_less (degree_score points meth d c') (degree_score points meth b cb) \<and>
         (d < b \<longrightarrow> score_less (degree_score points meth b cb) (degree_score points meth d c')))"
proof -
  have "d' < d + 1 \<longleftrightarrow> d' < d \<or> d' = d" for d' :: int by auto
  then show "1 \<le> d \<Longrightarrow> ?thesis" unfolding min_scored_def by auto
qed

lemma sweep_inv_attempted [simp]:
  "sweep_inv points meth d (st\<lparr>attempted := a\<rparr>) = sweep_inv points meth d st"
  by (simp add: sweep_inv_def)

lemma sweep_inv_start: "sweep_inv points meth 1 sweep_start"
  by (auto simp: sweep_inv_def sweep_start_def all_unusable_def)

lemma try_degree_cases:
  obtains (fails) "isl (calculatePolynomialRegression points d)" "try_degree points meth d st = st"
  | (perfect_first) c where "calculatePolynomialRegression points d = Inr c"
      "residual_rss points c \<le> 1 / 10 ^ 10" "bestDegree st = - 1"
      "try_degree points meth d st = st\<lparr>bestScore := NegInfinity, bestDegree := d, bestCoefficients := c\<rparr>"
  | (perfect_late) c where "calculatePolynomialRegression points d = Inr c"
      "residual_rss points c \<le> 1 / 10 ^ 10" "bestDegree st \<noteq> - 1"
      "try_degree points meth d st = st"
  | (better) c where "calculatePolynomialRegression points d = Inr c"
      "\<not> residual_rss points c \<le> 1 / 10 ^ 10"
      "score_less (degree_score points meth d c) (bestScore st)"
      "try_degree points meth d st =
         st\<lparr>bestScore := degree_score points meth d c, bestDegree := d, bestCoefficients := c\<rparr>"
  | (worse) c where "calculatePolynomialRegression points d = Inr c"
      "\<not> residual_rss points c \<le> 1 / 10 ^ 10"
      "\<not> score_less (degree_score points meth d c) (bestScore st)"
      "try_degree points meth d st = st"
proof (cases "calculatePolynomialRegression points d")
  case (Inl e)
  then show ?thesis using fails by (simp add: try_degree_def)
next
  case (Inr c)
  show ?thesis
  proof (cases "residual_rss points c \<le> 1 / 10 ^ 10")
    case True
    then show ?thesis using Inr perfect_first[of c] perfect_late[of c]
      by (cases "bestDegree st = - 1") (simp_all add: try_degree_def)
  next
    case False
    then show ?thesis using Inr better[of c] worse[of c]
      by (cases "score_less (degree_score points meth d c) (bestScore st)")
        (simp_all add: try_degree_def degree_score_def)
  qed
qed

lemma sweep_inv_step:
  assumes inv: "sweep_inv points meth d st" and d: "1 \<le> d"
  shows "sweep_inv points meth (d + 1) (try_degree points meth d st)"
proof (cases rule: try_degree_cases[of points d meth st])
  case fails
  then have no: "\<And>c'. calculatePolynomialRegression points d \<noteq> Inr c'" by auto
  have un: "unusable points d" using fails(1) by (auto simp: unusable_def split: sum.splits)
  show ?thesis using inv no un
    unfolding sweep_inv_def fails(2) all_unusable_step[OF d] min_scored_step[OF d] by auto
next
  case (perfect_first c)
  then have "all_unusable points d" using inv by (auto simp: sweep_inv_def)
  then show ?thesis using d perfect_first(1,2) tiny_no_overflow[OF perfect_first(2)]
    unfolding sweep_inv_def perfect_first(4) by simp
next
  case (perfect_late c)
  then show ?thesis using inv
    unfolding sweep_inv_def perfect_late(4) min_scored_step[OF d] by auto
next
  case (better c)
  let ?s = "degree_score points meth d c"
  have fin: "\<not> double_overflow (residual_rss points c)"
    using better(3) degree_score_Infinity[of points meth d c] by (cases "bestScore st") auto
  have "min_scored points meth d c d"
    unfolding min_scored_def
  proof (intro allI impI)
    fix d' c'
    assume a: "1 \<le> d' \<and> d' < d \<and> calculatePolynomialRegression points d' = Inr c' \<and>
         \<not> residual_rss points c' \<le> 1 / 10 ^ 10"
    let ?s' = "degree_score points meth d' c'"
    have "score_less ?s ?s'"
    proof (cases "bestDegree st = - 1")
      case True
      then have "all_unusable points d" using inv by (auto simp: sweep_inv_def)
      then have "unusable points d'" using a by (simp add: all_unusable_def)
      then have "?s' = Infinity" using a by (simp add: unusable_def degree_score_Infinity)
      moreover have "?s \<noteq> Infinity" using fin by (simp add: degree_score_Infinity)
      ultimately show ?thesis
        using degree_score_not_NegInfinity[of points meth d c] by (cases ?s) simp_all
    next
      case False
      with inv have rest: "if residual_rss points (bestCoefficients st) \<le> 1 / 10 ^ 10
          then bestScore st = NegInfinity
          else bestScore st = degree_score points meth (bestDegree st) (bestCoefficients st) \<and>
               min_scored points meth (bestDegree st) (bestCoefficients st) d"
        unfolding sweep_inv_def by (auto split: if_splits)
      show ?thesis
      proof (cases "residual_rss points (bestCoefficients st) \<le> 1 / 10 ^ 10")
        case True
        then have "bestScore st = NegInfinity" using rest by simp
        then show ?thesis using better(3) by (cases ?s) simp_all
      next
        case False
        then have "score_less ?s (degree_score points meth (bestDegree st) (bestCoefficients st))"
          and "\<not> score_less ?s' (degree_score points meth (bestDegree st) (bestCoefficients st))"
          using rest better(3) a by (auto simp: min_scored_def)
        then show ?thesis by (rule score_less_le_trans)
      qed
    qed
    then show "\<not> score_less ?s' ?s \<and> (d' < d \<longrightarrow> score_less ?s ?s')"
      using score_less_asym by blast
  qed
  then have "min_scored points meth d c (d + 1)"
    using better(1) unfolding min_scored_step[OF d] by (auto simp: score_less_irrefl)
  then show ?thesis
    unfolding sweep_inv_def better(4) using d better(1,2) fin by simp
next
  case (worse c)
  let ?s = "degree_score points meth d c"
  show ?thesis
  proof (cases "bestDegree st = - 1")
    case True
    then have A: "bestScore st = Infinity" "all_unusable points d"
      using inv by (auto simp: sweep_inv_def)
    then have "?s = Infinity" using worse(3) by (simp add: score_less_Infinity)
    then have "unusable points d" using worse(1) by (simp add: unusable_def degree_score_Infinity)
    then show ?thesis using True A
      unfolding sweep_inv_def worse(4) all_unusable_step[OF d] by simp
  next
    case False
    with inv have b: "1 \<le> bestDegree st" "bestDegree st < d"
        "calculatePolynomialRegression points (bestDegree st) = Inr (bestCoefficients st)"
        "\<not> double_overflow (residual_rss points (bestCoefficients st))"
      unfolding sweep_inv_def by auto
    show ?thesis
    proof (cases "residual_rss points (bestCoefficients st) \<le> 1 / 10 ^ 10")
      case True
      then show ?thesis using inv False b
        unfolding sweep_inv_def worse(4) by auto
    next
      case nonperfect: False
      with inv False have sc: "bestScore st = degree_score points meth (bestDegree st) (bestCoefficients st)"
        and mn: "min_scored points meth (bestDegree st) (bestCoefficients st) d"
        unfolding sweep_inv_def by auto
      have "min_scored points meth (bestDegree st) (bestCoefficients st) (d + 1)"
        unfolding min_scored_step[OF d] using mn worse(1,3) b(2) sc by auto
      then show ?thesis using b nonperfect sc
        unfolding sweep_inv_def worse(4) by auto
    qed
  qed
qed

lemma sweep_inv_sweep:
  "sweep_inv points meth d st \<Longrightarrow> 1 \<le> d \<Longrightarrow> d \<le> maxD + 1 \<Longrightarrow>
   sweep_inv points meth (maxD + 1) (sweep points meth d maxD st)"
proof (induction points meth d maxD st rule: sweep.induct)
  case (1 points meth d maxD st)
  show ?case
  proof (cases "d \<le> maxD")
    case True
    let ?st1 = "try_degree points meth d (st\<lparr>attempted := attempted st @ [d]\<rparr>)"
    have "sweep_inv points meth (d + 1) ?st1"
      using "1.prems" by (intro sweep_inv_step) simp_all
    then have "sweep_inv points meth (maxD + 1) (sweep points meth (d + 1) maxD ?st1)"
      using True "1.prems" by (intro "1.IH") simp_all
    then show ?thesis by (simp only: sweep_unfold[OF True])
  next
    case False
    then have "d = maxD + 1" using "1.prems" by simp
    then show ?thesis using "1.prems"(1) by (simp add: sweep_done)
  qed
qed

lemma maxDegree_small: "maxDegreeToTest points < 1 \<longleftrightarrow> length points < 2"
  by (auto simp: maxDegreeToTest_def Let_def)

lemma sweep_final_inv:
  "1 \<le> maxDegreeToTest points \<Longrightarrow>
   sweep_inv points meth (maxDegreeToTest points + 1)
     (sweep points meth 1 (maxDegreeToTest points) sweep_start)"
  by (intro sweep_inv_sweep sweep_inv_start) simp_all

lemma sweep_prefix_inv:
  "1 \<le> d \<Longrightarrow> sweep_inv points meth d (sweep points meth 1 (d - 1) sweep_start)"
  using sweep_inv_sweep[OF sweep_inv_start, of "d - 1" points meth] by simp

lemma accepted_usable:
  assumes "sweep_inv points meth d st" "bestDegree st \<noteq> - 1"
  shows "1 \<le> bestDegree st" "bestDegree st < d" "\<not> unusable points (bestDegree st)"
    "calculatePolynomialRegression points (bestDegree st) = Inr (bestCoefficients st)"
  using assms by (auto simp: sweep_inv_def unusable_def)

lemma none_accepted_iff:
  assumes "sweep_inv points meth d st"
  shows "bestDegree st = - 1 \<longleftrightarrow> all_unusable points d"
proof
  assume "bestDegree st = - 1"
  then show "all_unusable points d" using assms by (auto simp: sweep_inv_def)
next
  assume all: "all_unusable points d"
  show "bestDegree st = - 1"
  proof (rule ccontr)
    assume ne: "bestDegree st \<noteq> - 1"
    from accepted_usable[OF assms ne] all show False by (auto simp: all_unusable_def)
  qed
qed

lemma sweep_last:
  assumes "1 \<le> d"
  shows "sweep points meth 1 d st =
     try_degree points meth d
       ((sweep points meth 1 (d - 1) st)\<lparr>attempted := attempted (sweep points meth 1 (d - 1) st) @ [d]\<rparr>)"
proof -
  let ?pre = "sweep points meth 1 (d - 1) st"
  let ?st1 = "try_degree points meth d (?pre\<lparr>attempted := attempted ?pre @ [d]\<rparr>)"
  have e: "d - 1 + 1 = d" by simp
  have "sweep points meth 1 d st = sweep points meth (d - 1 + 1) d ?pre"
    using assms by (intro sweep_split) simp_all
  then have "sweep points meth 1 d st = sweep points meth d d ?pre"
    by (simp only: e)
  also have "\<dots> = sweep points meth (d + 1) d ?st1"
    by (rule sweep_unfold) simp
  also have "\<dots> = ?st1"
    by (rule sweep_done) simp
  finally show ?thesis .
qed

lemma sweep_locked:
  "bestScore st = NegInfinity \<Longrightarrow> bestDegree st \<noteq> - 1 \<Longrightarrow>
   bestScore (sweep points meth a maxD st) = NegInfinity \<and>
   bestDegree (sweep points meth a maxD st) = bestDegree st \<and>
   bestCoefficients (sweep points meth a maxD st) = bestCoefficients st"
proof (induction points meth a maxD st rule: sweep.induct)
  case (1 points meth a maxD st)
  show ?case
  proof (cases "a \<le> maxD")
    case True
    let ?st0 = "st\<lparr>attempted := attempted st @ [a]\<rparr>"
    let ?st1 = "try_degree points meth a ?st0"
    have same: "bestScore ?st1 = NegInfinity \<and> bestDegree ?st1 = bestDegree st \<and>
        bestCoefficients ?st1 = bestCoefficients st"
      using "1.prems"
      by (cases rule: try_degree_cases[of points a meth ?st0]) (auto simp: score_less_NegInfinity)
    then show ?thesis
      using "1.IH"[OF True] "1.prems" by (simp only: sweep_unfold[OF True]) simp
  next
    case False
    then show ?thesis using "1.prems" by (simp add: sweep_done)
  qed
qed

lemma best_odd:
  "findBestFitPolynomial [Point (- 2) (- 1), Point (- 1) (- 2), Point 1 2, Point 2 1] AIC = Inr (1, [0, 4 / 5])"
  by (simp add: findBestFitPolynomial_def maxDegreeToTest_def sweep.simps try_degree_def
      sweep_start_def information_score_def double_overflow_def
      fit_odd_1 fit_odd_2 fit_odd_3 rss_odd_1 rss_odd_2 rss_odd_3)

lemma best_parabola:
  "findBestFitPolynomial [Point 0 0, Point 1 1, Point 2 4] BIC = Inr (1, [- (1 / 3), 2])"
  by (simp add: findBestFitPolynomial_def maxDegreeToTest_def sweep.simps try_degree_def
      sweep_start_def information_score_def double_overflow_def
      fit_parabola_1 fit_parabola_2 rss_parabola_1 rss_parabola_2)

lemma best_line:
  "findBestFitPolynomial [Point 0 0, Point 1 1, Point 2 2] BIC = Inr (1, [0, 1])"
  by (simp add: findBestFitPolynomial_def maxDegreeToTest_def sweep.simps try_degree_def
      sweep_start_def information_score_def double_overflow_def fit_line_1 fit_line_2 rss_line_1 rss_line_2)






text \<open>
  Claim C5. \<^verbatim>\<open>findBestFitPolynomial\<close> fails for too few points exactly when there are
  fewer than 2 points; otherwise the degrees it attempts are \<open>1, ..., min(20, n - 1)\<close> in
  ascending order. In automatic mode \<^verbatim>\<open>handleTrain\<close> rejects fewer than 2 points itself,
  with its own message.
\<close>

theorem candidate_degrees:
  "(findBestFitPolynomial points meth = Inl (InsufficientDataError t) \<longleftrightarrow>
      t = InSweep \<and> length points < 2) \<and>
   (\<not> length points < 2 \<longrightarrow>
      attempted (sweep points meth 1 (maxDegreeToTest points) sweep_start) =
        [1..min 20 (int (length points) - 1)]) \<and>
   (length points < 2 \<longrightarrow>
      handleTrain points selectedDegree True meth = Inl (InsufficientDataError InAutoMode))"
proof (intro conjI impI)
  show "findBestFitPolynomial points meth = Inl (InsufficientDataError t) \<longleftrightarrow>
      t = InSweep \<and> length points < 2"
    using maxDegree_small[of points] by (auto simp: findBestFitPolynomial_def Let_def)
  show "attempted (sweep points meth 1 (maxDegreeToTest points) sweep_start) =
        [1..min 20 (int (length points) - 1)]"
  proof -
    have "attempted sweep_start = []" by (simp add: sweep_start_def)
    moreover have "maxDegreeToTest points = min 20 (int (length points) - 1)"
      by (simp add: maxDegreeToTest_def Let_def)
    ultimately show ?thesis by (simp only: attempted_sweep append_Nil)
  qed
  show "length points < 2 \<Longrightarrow>
      handleTrain points selectedDegree True meth = Inl (InsufficientDataError InAutoMode)"
    by (simp add: handleTrain_def)
qed

theorem candidate_degrees_witness:
  "length [Point 0 0] < 2 \<and>
   findBestFitPolynomial [Point 0 0] BIC = Inl (InsufficientDataError InSweep) \<and>
   handleTrain [Point 0 0] 2 True BIC = Inl (InsufficientDataError InAutoMode) \<and>
   \<not> length [Point 0 0, Point 1 1, Point 2 4] < 2 \<and>
   attempted (sweep [Point 0 0, Point 1 1, Point 2 4] BIC 1
     (maxDegreeToTest [Point 0 0, Point 1 1, Point 2 4]) sweep_start) = [1, 2]"
proof -
  have two: "[1..min 20 (int (length [Point 0 0, Point 1 1, Point 2 4]) - 1)] = [1, 2]"
    by (simp add: upto.simps)
  show ?thesis
    using candidate_degrees[of "[Point 0 0]" BIC InSweep 2]
      candidate_degrees[of "[Point 0 0, Point 1 1, Point 2 4]" BIC InSweep 2]
    unfolding two by simp
qed




text \<open>
  Claim C7. If no degree has been accepted when candidate degree \<open>d\<close> is tried and its fit
  has a residual sum of squares of at most \<open>1 / 10 ^ 10\<close>, then \<open>d\<close> is accepted with score
  minus infinity, the sweep still attempts every remaining degree, and \<open>d\<close> with its
  coefficients is what \<^verbatim>\<open>findBestFitPolynomial\<close> returns.
\<close>

theorem first_perfect_fit_wins:
  assumes d: "1 \<le> d" "d \<le> maxDegreeToTest points"
    and none: "bestDegree (sweep points meth 1 (d - 1) sweep_start) = - 1"
    and fit: "calculatePolynomialRegression points d = Inr c"
    and rss: "residual_rss points c \<le> 1 / 10 ^ 10"
  shows "bestScore (sweep points meth 1 d sweep_start) = NegInfinity \<and>
     bestDegree (sweep points meth 1 d sweep_start) = d \<and>
     bestCoefficients (sweep points meth 1 d sweep_start) = c \<and>
     attempted (sweep points meth 1 (maxDegreeToTest points) sweep_start) =
       [1..maxDegreeToTest points] \<and>
     findBestFitPolynomial points meth = Inr (d, c)"
proof -
  let ?pre = "sweep points meth 1 (d - 1) sweep_start"
  let ?pre' = "?pre\<lparr>attempted := attempted ?pre @ [d]\<rparr>"
  let ?at = "sweep points meth 1 d sweep_start"
  let ?fin = "sweep points meth 1 (maxDegreeToTest points) sweep_start"
  have "try_degree points meth d ?pre' =
      ?pre'\<lparr>bestScore := NegInfinity, bestDegree := d, bestCoefficients := c\<rparr>"
    using none fit rss by (simp add: try_degree_def)
  then have at: "bestScore ?at = NegInfinity" "bestDegree ?at = d" "bestCoefficients ?at = c"
    by (simp_all add: sweep_last[OF d(1)])
  have "?fin = sweep points meth (d + 1) (maxDegreeToTest points) ?at"
    using d by (intro sweep_split) simp_all
  then have fin: "bestDegree ?fin = d" "bestCoefficients ?fin = c"
    using sweep_locked[of ?at points meth "d + 1" "maxDegreeToTest points"] at d(1) by simp_all
  have "findBestFitPolynomial points meth = Inr (d, c)"
    using d fin by (simp add: findBestFitPolynomial_def Let_def)
  moreover have "attempted sweep_start = []" by (simp add: sweep_start_def)
  then have "attempted ?fin = [1..maxDegreeToTest points]"
    by (simp only: attempted_sweep append_Nil)
  ultimately show ?thesis using at by simp
qed

theorem first_perfect_fit_wins_witness:
  "(1 :: int) \<le> 1 \<and> 1 \<le> maxDegreeToTest [Point 0 0, Point 1 1, Point 2 2] \<and>
   bestDegree (sweep [Point 0 0, Point 1 1, Point 2 2] BIC 1 (1 - 1) sweep_start) = - 1 \<and>
   calculatePolynomialRegression [Point 0 0, Point 1 1, Point 2 2] 1 = Inr [0, 1] \<and>
   residual_rss [Point 0 0, Point 1 1, Point 2 2] [0, 1] \<le> 1 / 10 ^ 10 \<and>
   calculatePolynomialRegression [Point 0 0, Point 1 1, Point 2 2] 2 = Inr [0, 1, 0] \<and>
   residual_rss [Point 0 0, Point 1 1, Point 2 2] [0, 1, 0] \<le> 1 / 10 ^ 10 \<and>
   findBestFitPolynomial [Point 0 0, Point 1 1, Point 2 2] BIC = Inr (1, [0, 1])"
proof -
  have h1: "(1 :: int) \<le> 1" by simp
  have h2: "1 \<le> maxDegreeToTest [Point 0 0, Point 1 1, Point 2 2]"
    by (simp add: maxDegreeToTest_def)
  have h3: "bestDegree (sweep [Point 0 0, Point 1 1, Point 2 2] BIC 1 (1 - 1) sweep_start) = - 1"
    by (simp add: sweep.simps sweep_start_def)
  have h5: "residual_rss [Point 0 0, Point 1 1, Point 2 2] [0, 1] \<le> 1 / 10 ^ 10"
    by (simp add: rss_line_1)
  have h6: "residual_rss [Point 0 0, Point 1 1, Point 2 2] [0, 1, 0] \<le> 1 / 10 ^ 10"
    by (simp add: rss_line_2)
  from first_perfect_fit_wins[OF h1 h2 h3 fit_line_1 h5]
  have "findBestFitPolynomial [Point 0 0, Point 1 1, Point 2 2] BIC = Inr (1, [0, 1])" by blast
  then show ?thesis using h1 h2 h3 h5 h6 fit_line_1 fit_line_2 by blast
qed

text \<open>
  Claim C8. The score of a degree \<open>d'\<close> with \<open>k = d' + 1\<close> parameters is
  \<open>n ln(RSS / n) + 2 k\<close> under AIC and \<open>n ln(RSS / n) + k ln n\<close> under BIC, and \<^verbatim>\<open>Infinity\<close>
  when the RSS is \<^verbatim>\<open>Infinity\<close>. The returned degree is a candidate with its own regression
  coefficients; unless it was accepted as a near-perfect fit, no candidate whose fit is
  not near-perfect has a smaller score, and every such lower degree has a greater score,
  so on equal scores the lowest degree is returned.
\<close>

theorem minimum_score_selected:
  assumes ret: "findBestFitPolynomial points meth = Inr (d, c)"
    and cand: "1 \<le> d'" "d' \<le> maxDegreeToTest points"
    and fit': "calculatePolynomialRegression points d' = Inr c'"
    and nondeg: "\<not> residual_rss points c' \<le> 1 / 10 ^ 10"
  shows "(\<not> double_overflow r \<longrightarrow>
        information_score AIC n d' r = Finite (real n * ln (r / real n) + 2 * (real_of_int d' + 1)) \<and>
        information_score BIC n d' r =
          Finite (real n * ln (r / real n) + (real_of_int d' + 1) * ln (real n))) \<and>
     (double_overflow r \<longrightarrow> information_score meth n d' r = Infinity) \<and>
     1 \<le> d \<and> d \<le> maxDegreeToTest points \<and> calculatePolynomialRegression points d = Inr c \<and>
     (residual_rss points c \<le> 1 / 10 ^ 10 \<or>
      \<not> score_less (information_score meth (length points) d' (residual_rss points c'))
           (information_score meth (length points) d (residual_rss points c)) \<and>
      (d' < d \<longrightarrow>
         score_less (information_score meth (length points) d (residual_rss points c))
           (information_score meth (length points) d' (residual_rss points c'))))"
proof -
  let ?fin = "sweep points meth 1 (maxDegreeToTest points) sweep_start"
  from ret have m: "1 \<le> maxDegreeToTest points" and b: "bestDegree ?fin = d" "bestCoefficients ?fin = c"
    and ne: "bestDegree ?fin \<noteq> - 1"
    by (auto simp: findBestFitPolynomial_def Let_def split: if_splits)
  from sweep_final_inv[OF m, of meth] ne b
  have inv: "1 \<le> d" "d < maxDegreeToTest points + 1" "calculatePolynomialRegression points d = Inr c"
    "\<not> residual_rss points c \<le> 1 / 10 ^ 10 \<Longrightarrow> min_scored points meth d c (maxDegreeToTest points + 1)"
    by (auto simp: sweep_inv_def split: if_splits)
  have "residual_rss points c \<le> 1 / 10 ^ 10 \<or>
      \<not> score_less (degree_score points meth d' c') (degree_score points meth d c) \<and>
      (d' < d \<longrightarrow> score_less (degree_score points meth d c) (degree_score points meth d' c'))"
    using inv(4) cand fit' nondeg unfolding min_scored_def by fastforce
  then show ?thesis using inv(1,2,3)
    by (simp add: degree_score_def information_score_def Let_def)
qed

theorem minimum_score_selected_witness:
  "findBestFitPolynomial [Point (- 2) (- 1), Point (- 1) (- 2), Point 1 2, Point 2 1] AIC = Inr (1, [0, 4 / 5]) \<and>
   (1 :: int) \<le> 2 \<and> 2 \<le> maxDegreeToTest [Point (- 2) (- 1), Point (- 1) (- 2), Point 1 2, Point 2 1] \<and>
   calculatePolynomialRegression [Point (- 2) (- 1), Point (- 1) (- 2), Point 1 2, Point 2 1] 2 = Inr [0, 4 / 5, 0] \<and>
   \<not> residual_rss [Point (- 2) (- 1), Point (- 1) (- 2), Point 1 2, Point 2 1] [0, 4 / 5, 0] \<le> 1 / 10 ^ 10 \<and>
   \<not> score_less
       (information_score AIC (length [Point (- 2) (- 1), Point (- 1) (- 2), Point 1 2, Point 2 1]) 2
         (residual_rss [Point (- 2) (- 1), Point (- 1) (- 2), Point 1 2, Point 2 1] [0, 4 / 5, 0]))
       (information_score AIC (length [Point (- 2) (- 1), Point (- 1) (- 2), Point 1 2, Point 2 1]) 1
         (residual_rss [Point (- 2) (- 1), Point (- 1) (- 2), Point 1 2, Point 2 1] [0, 4 / 5]))"
proof -
  let ?pts = "[Point (- 2) (- 1), Point (- 1) (- 2), Point 1 2, Point 2 1]"
  have h1: "(1 :: int) \<le> 2" by simp
  have h2: "2 \<le> maxDegreeToTest ?pts" by (simp add: maxDegreeToTest_def)
  have h4: "\<not> residual_rss ?pts [0, 4 / 5, 0] \<le> 1 / 10 ^ 10" by (simp add: rss_odd_2)
  have h5: "\<not> residual_rss ?pts [0, 4 / 5] \<le> 1 / 10 ^ 10" by (simp add: rss_odd_1)
  from minimum_score_selected[OF best_odd h1 h2 fit_odd_2 h4, of 0 0] h5
  have "\<not> score_less (information_score AIC (length ?pts) 2 (residual_rss ?pts [0, 4 / 5, 0]))
      (information_score AIC (length ?pts) 1 (residual_rss ?pts [0, 4 / 5]))"
    by blast
  then show ?thesis using best_odd h1 h2 fit_odd_2 h4 by blast
qed

text \<open>
  Claim C10. If some degree has already been accepted when candidate degree \<open>d\<close> is tried
  and the fit of \<open>d\<close> has a residual sum of squares of at most \<open>1 / 10 ^ 10\<close>, the sweep
  leaves its best score, degree and coefficients untouched, although minus infinity is
  less than every finite score; \<^verbatim>\<open>findBestFitPolynomial\<close> then returns a degree other
  than \<open>d\<close>.
\<close>

theorem late_perfect_fit_skipped:
  assumes d: "1 \<le> d" "d \<le> maxDegreeToTest points"
    and some: "bestDegree (sweep points meth 1 (d - 1) sweep_start) \<noteq> - 1"
    and fit: "calculatePolynomialRegression points d = Inr c"
    and rss: "residual_rss points c \<le> 1 / 10 ^ 10"
  shows "sweep points meth 1 d sweep_start =
       (sweep points meth 1 (d - 1) sweep_start)
         \<lparr>attempted := attempted (sweep points meth 1 (d - 1) sweep_start) @ [d]\<rparr> \<and>
     score_less NegInfinity (Finite s) \<and>
     (\<exists>b cb. findBestFitPolynomial points meth = Inr (b, cb) \<and> b \<noteq> d)"
proof -
  let ?pre = "sweep points meth 1 (d - 1) sweep_start"
  let ?pre' = "?pre\<lparr>attempted := attempted ?pre @ [d]\<rparr>"
  let ?fin = "sweep points meth 1 (maxDegreeToTest points) sweep_start"
  have "try_degree points meth d ?pre' = ?pre'"
    using some fit rss by (simp add: try_degree_def)
  then have skip: "sweep points meth 1 d sweep_start = ?pre'"
    by (simp add: sweep_last[OF d(1)])
  from accepted_usable[OF sweep_prefix_inv[OF d(1), of points meth] some]
  have early: "\<not> all_unusable points d" by (auto simp: all_unusable_def)
  from d have m: "1 \<le> maxDegreeToTest points" by simp
  note inv = sweep_final_inv[OF m, of meth]
  have usable: "\<not> unusable points d"
    using fit tiny_no_overflow[OF rss] by (simp add: unusable_def)
  have notnone: "bestDegree ?fin \<noteq> - 1"
  proof
    assume "bestDegree ?fin = - 1"
    then have "all_unusable points (maxDegreeToTest points + 1)"
      using none_accepted_iff[OF inv] by simp
    then show False using usable d by (auto simp: all_unusable_def)
  qed
  have "bestDegree ?fin \<noteq> d"
  proof
    assume eq: "bestDegree ?fin = d"
    then have "bestCoefficients ?fin = c" using inv notnone fit by (auto simp: sweep_inv_def)
    then have "all_unusable points d" using inv notnone rss eq by (auto simp: sweep_inv_def)
    then show False using early by simp
  qed
  then have "\<exists>b cb. findBestFitPolynomial points meth = Inr (b, cb) \<and> b \<noteq> d"
    using m notnone by (simp add: findBestFitPolynomial_def Let_def)
  then show ?thesis using skip by simp
qed

theorem late_perfect_fit_skipped_witness:
  "(1 :: int) \<le> 2 \<and> 2 \<le> maxDegreeToTest [Point 0 0, Point 1 1, Point 2 4] \<and>
   bestDegree (sweep [Point 0 0, Point 1 1, Point 2 4] BIC 1 (2 - 1) sweep_start) \<noteq> - 1 \<and>
   calculatePolynomialRegression [Point 0 0, Point 1 1, Point 2 4] 2 = Inr [0, 0, 1] \<and>
   residual_rss [Point 0 0, Point 1 1, Point 2 4] [0, 0, 1] \<le> 1 / 10 ^ 10 \<and>
   findBestFitPolynomial [Point 0 0, Point 1 1, Point 2 4] BIC = Inr (1, [- (1 / 3), 2]) \<and>
   (\<exists>b cb. findBestFitPolynomial [Point 0 0, Point 1 1, Point 2 4] BIC = Inr (b, cb) \<and> b \<noteq> 2)"
proof -
  let ?pts = "[Point 0 0, Point 1 1, Point 2 4]"
  have h1: "(1 :: int) \<le> 2" by simp
  have h2: "2 \<le> maxDegreeToTest ?pts" by (simp add: maxDegreeToTest_def)
  have h3: "bestDegree (sweep ?pts BIC 1 (2 - 1) sweep_start) \<noteq> - 1"
    by (simp add: sweep.simps try_degree_def sweep_start_def information_score_def double_overflow_def
        fit_parabola_1 rss_parabola_1)
  have h5: "residual_rss ?pts [0, 0, 1] \<le> 1 / 10 ^ 10" by (simp add: rss_parabola_2)
  from late_perfect_fit_skipped[OF h1 h2 h3 fit_parabola_2 h5, of 0]
  have "\<exists>b cb. findBestFitPolynomial ?pts BIC = Inr (b, cb) \<and> b \<noteq> 2" by blast
  then show ?thesis using h1 h2 h3 h5 fit_parabola_2 best_parabola by blast
qed

subsection \<open>The caller's arrays are not written\<close>

lemma extends_put_at:
  "extends h0 h \<Longrightarrow> fresh_rows h0 m \<Longrightarrow> k < length m \<Longrightarrow> extends h0 (put_at h m k j v)"
  by (simp add: extends_def fresh_rows_def put_at_def)

lemma extends_normalize_fold:
  "extends h0 h \<Longrightarrow> fresh_rows h0 m \<Longrightarrow> i < length m \<Longrightarrow>
   extends h0 (fold (\<lambda>k h'. put_at h' m i k (entry_at h' m i k / entry_at h' m i i)) ks h)"
  by (induction ks arbitrary: h) (simp_all add: extends_put_at)

lemma extends_normalize_row:
  "extends h0 h \<Longrightarrow> fresh_rows h0 m \<Longrightarrow> i < length m \<Longrightarrow> extends h0 (normalize_row_st h m n i)"
  by (simp add: normalize_row_st_def extends_put_at extends_normalize_fold)

lemma extends_eliminate_row_fold:
  "extends h0 h \<Longrightarrow> fresh_rows h0 m \<Longrightarrow> k < length m \<Longrightarrow>
   extends h0 (fold (\<lambda>j h'. put_at h' m k j (entry_at h' m k j - f * entry_at h' m i j)) js h)"
  by (induction js arbitrary: h) (simp_all add: extends_put_at)

lemma extends_eliminate_row:
  "extends h0 h \<Longrightarrow> fresh_rows h0 m \<Longrightarrow> k < length m \<Longrightarrow> extends h0 (eliminate_row_st h m n i k)"
  by (simp add: eliminate_row_st_def Let_def extends_eliminate_row_fold)

lemma extends_eliminate_fold:
  "extends h0 h \<Longrightarrow> fresh_rows h0 m \<Longrightarrow> \<forall>k \<in> set ks. k < length m \<Longrightarrow>
   extends h0 (fold (\<lambda>k h'. if k \<noteq> i then eliminate_row_st h' m n i k else h') ks h)"
  by (induction ks arbitrary: h) (simp_all add: extends_eliminate_row)

lemma extends_eliminate:
  "extends h0 h \<Longrightarrow> fresh_rows h0 m \<Longrightarrow> length m = n \<Longrightarrow> extends h0 (eliminate_st h m n i)"
  by (simp add: eliminate_st_def extends_eliminate_fold)

lemma pivot_st_fold:
  "fold (\<lambda>k maxRow. if \<bar>entry_at h m k i\<bar> > \<bar>entry_at h m maxRow i\<bar> then k else maxRow) ks r
     \<in> insert r (set ks)"
  by (induction ks arbitrary: r) auto

lemma find_pivot_st_range: "i < n \<Longrightarrow> find_pivot_st h m n i < n"
  using pivot_st_fold[of h m i "[i + 1..<n]" i] by (auto simp: find_pivot_st_def)

lemma swap_refs_fresh:
  "fresh_rows h0 m \<Longrightarrow> i < length m \<Longrightarrow> p < length m \<Longrightarrow> fresh_rows h0 (swap_refs m i p)"
  unfolding fresh_rows_def swap_refs_def
  by (metis (no_types, lifting) in_set_conv_nth length_list_update nth_list_update nth_mem)

lemma length_swap_refs: "length (swap_refs m i p) = length m"
  by (simp add: swap_refs_def)

lemma elim_step_st_frame:
  assumes "extends h0 h" "fresh_rows h0 m" "length m = n" "i < n"
    and "elim_step_st h m n i = (r, h')"
  shows "extends h0 h'" and "\<And>m'. r = Inr m' \<Longrightarrow> fresh_rows h0 m' \<and> length m' = n"
proof -
  let ?m1 = "swap_refs m i (find_pivot_st h m n i)"
  have p: "find_pivot_st h m n i < n" using assms(4) by (rule find_pivot_st_range)
  have f1: "fresh_rows h0 ?m1" using assms p by (simp add: swap_refs_fresh)
  have l1: "length ?m1 = n" using assms by (simp add: length_swap_refs)
  have "extends h0 (eliminate_st (normalize_row_st h ?m1 n i) ?m1 n i)"
    using assms(1,4) f1 l1 by (simp add: extends_eliminate extends_normalize_row)
  then show "extends h0 h'" using assms(1,5)
    by (auto simp: elim_step_st_def Let_def split: if_splits)
  show "\<And>m'. r = Inr m' \<Longrightarrow> fresh_rows h0 m' \<and> length m' = n"
    using assms(5) f1 l1 by (auto simp: elim_step_st_def Let_def split: if_splits)
qed

lemma elim_loop_st_frame:
  "extends h0 h \<Longrightarrow> fresh_rows h0 m \<Longrightarrow> length m = n \<Longrightarrow> \<forall>i \<in> set is. i < n \<Longrightarrow>
   extends h0 (snd (elim_loop_st h m n is))"
proof (induction "is" arbitrary: h m)
  case Nil
  then show ?case by simp
next
  case (Cons i "is")
  obtain r h' where st: "elim_step_st h m n i = (r, h')" by (cases "elim_step_st h m n i")
  have i: "i < n" using Cons.prems(4) by simp
  note fr = elim_step_st_frame[OF Cons.prems(1,2,3) i st]
  show ?case
  proof (cases r)
    case (Inl e)
    then show ?thesis using st fr(1) by simp
  next
    case (Inr m')
    then show ?thesis using st fr Cons.prems(4) Cons.IH[of h' m'] by simp
  qed
qed

lemma augment_fold_frame:
  "extends h0 h \<Longrightarrow> fresh_rows h0 m \<Longrightarrow>
   fold (\<lambda>i (h', m). (h' @ [h' ! (matrixA ! i) @ [h' ! vectorB ! i]], m @ [length h'])) is (h, m) = (h1, m1) \<Longrightarrow>
   extends h0 h1 \<and> fresh_rows h0 m1 \<and> length m1 = length m + length is"
proof (induction "is" arbitrary: h m)
  case Nil
  then show ?case by simp
next
  case (Cons i "is")
  let ?h = "h @ [h ! (matrixA ! i) @ [h ! vectorB ! i]]" and ?m = "m @ [length h]"
  have len: "length h0 \<le> length h"
    using Cons.prems(1) by (metis extends_def length_take min.cobounded1 min.commute)
  have "extends h0 ?h" using Cons.prems(1) len by (simp add: extends_def)
  moreover have "fresh_rows h0 ?m" using Cons.prems(2) len by (simp add: fresh_rows_def)
  moreover have "fold (\<lambda>i (h', m). (h' @ [h' ! (matrixA ! i) @ [h' ! vectorB ! i]], m @ [length h'])) is (?h, ?m) = (h1, m1)"
    using Cons.prems(3) by simp
  ultimately show ?case using Cons.IH[of ?h ?m] by simp
qed

lemma solve_st_frame: "extends h (snd (solveLinearSystem_st h matrixA vectorB))"
proof -
  obtain h0 m where a: "augment_st h matrixA vectorB = (h0, m)" by (cases "augment_st h matrixA vectorB")
  have "extends h h" by (simp add: extends_def)
  moreover have "fresh_rows h []" by (simp add: fresh_rows_def)
  ultimately have a': "extends h h0" "fresh_rows h m" "length m = length matrixA"
    using augment_fold_frame[of h h "[]" matrixA vectorB "[0..<length matrixA]" h0 m] a
    by (simp_all add: augment_st_def)
  have "extends h (snd (elim_loop_st h0 m (length matrixA) [0..<length matrixA]))"
    using a' by (intro elim_loop_st_frame) simp_all
  moreover have "extends h h1 \<Longrightarrow> extends h (h1 @ [xs])" for h1 xs
    by (metis extends_def length_take min.cobounded1 min.commute take_append diff_is_0_eq take_0 append_Nil2 nat_le_linear take_all)
  ultimately show ?thesis
    by (auto simp: solveLinearSystem_st_def Let_def a split: prod.splits sum.splits)
qed

text \<open>
  Claim C4. Whatever the store, the matrix and the vector, after \<^verbatim>\<open>solveLinearSystem\<close> has
  returned or failed every array that existed before the call has the content it had:
  the store after the call is the store before it followed by newly allocated arrays.
\<close>

theorem solveLinearSystem_frame:
  "take (length h) (snd (solveLinearSystem_st h matrixA vectorB)) = h"
  using solve_st_frame[of h matrixA vectorB] by (simp add: extends_def)

subsection \<open>The store model computes what the value model computes\<close>

lemma entry_at_rows: "k < length m \<Longrightarrow> entry_at h m k j = entry (rows_of h m) k j"
  by (simp add: entry_at_def entry_def rows_of_def)

lemma rows_put_at:
  assumes "valid_rows h m" "k < length m"
  shows "rows_of (put_at h m k j v) m = put (rows_of h m) k j v"
proof (rule nth_equalityI)
  show "length (rows_of (put_at h m k j v) m) = length (put (rows_of h m) k j v)"
    by (simp add: rows_of_def put_def)
  fix r assume "r < length (rows_of (put_at h m k j v) m)"
  then have r: "r < length m" by (simp add: rows_of_def)
  have eq: "m ! r = m ! k \<longleftrightarrow> r = k"
    using assms r by (simp add: valid_rows_def nth_eq_iff_index_eq)
  have "m ! k < length h" using assms by (simp add: valid_rows_def)
  then show "rows_of (put_at h m k j v) m ! r = put (rows_of h m) k j v ! r"
    using r assms(2) eq by (auto simp: rows_of_def put_at_def put_def nth_list_update)
qed

lemma valid_put_at: "valid_rows (put_at h m k j v) m' = valid_rows h m'"
  by (simp add: valid_rows_def put_at_def)

lemma find_pivot_fold_rows:
  "\<forall>k \<in> set ks. k < length m \<Longrightarrow> r < length m \<Longrightarrow>
   fold (\<lambda>k maxRow. if \<bar>entry_at h m k i\<bar> > \<bar>entry_at h m maxRow i\<bar> then k else maxRow) ks r =
   fold (\<lambda>k maxRow. if \<bar>entry (rows_of h m) k i\<bar> > \<bar>entry (rows_of h m) maxRow i\<bar> then k else maxRow) ks r"
  by (induction ks arbitrary: r) (simp_all add: entry_at_rows)

lemma find_pivot_rows:
  "i < n \<Longrightarrow> length m = n \<Longrightarrow> find_pivot_st h m n i = find_pivot (rows_of h m) n i"
  unfolding find_pivot_st_def find_pivot_def by (rule find_pivot_fold_rows) simp_all

lemma rows_swap:
  "i < length m \<Longrightarrow> p < length m \<Longrightarrow> rows_of h (swap_refs m i p) = swap_rows (rows_of h m) i p"
  by (simp add: rows_of_def swap_refs_def swap_rows_def map_update)

lemma valid_swap:
  "valid_rows h m \<Longrightarrow> i < length m \<Longrightarrow> p < length m \<Longrightarrow> valid_rows h (swap_refs m i p)"
  by (simp add: valid_rows_def swap_refs_def)

lemma normalize_fold_rows:
  "valid_rows h m \<Longrightarrow> i < length m \<Longrightarrow>
   rows_of (fold (\<lambda>k h'. put_at h' m i k (entry_at h' m i k / entry_at h' m i i)) ks h) m =
   fold (\<lambda>k m'. put m' i k (entry m' i k / entry m' i i)) ks (rows_of h m) \<and>
   valid_rows (fold (\<lambda>k h'. put_at h' m i k (entry_at h' m i k / entry_at h' m i i)) ks h) m"
proof (induction ks arbitrary: h)
  case Nil
  then show ?case by simp
next
  case (Cons k ks)
  let ?h1 = "put_at h m i k (entry_at h m i k / entry_at h m i i)"
  have v: "valid_rows ?h1 m" using Cons.prems(1) by (simp add: valid_put_at)
  have "rows_of ?h1 m = put (rows_of h m) i k (entry (rows_of h m) i k / entry (rows_of h m) i i)"
    using Cons.prems by (simp add: rows_put_at entry_at_rows)
  then show ?case using Cons.IH[OF v Cons.prems(2)] by simp
qed

lemma normalize_row_rows:
  assumes "valid_rows h m" "i < length m"
  shows "rows_of (normalize_row_st h m n i) m = normalize_row (rows_of h m) n i"
    and "valid_rows (normalize_row_st h m n i) m"
  using normalize_fold_rows[OF assms, of "[i + 1..<n + 1]"] assms(2)
  by (simp_all add: normalize_row_st_def normalize_row_def rows_put_at valid_put_at)

lemma eliminate_row_fold_rows:
  "valid_rows h m \<Longrightarrow> k < length m \<Longrightarrow> i < length m \<Longrightarrow>
   rows_of (fold (\<lambda>j h'. put_at h' m k j (entry_at h' m k j - f * entry_at h' m i j)) js h) m =
   fold (\<lambda>j m'. put m' k j (entry m' k j - f * entry m' i j)) js (rows_of h m) \<and>
   valid_rows (fold (\<lambda>j h'. put_at h' m k j (entry_at h' m k j - f * entry_at h' m i j)) js h) m"
proof (induction js arbitrary: h)
  case Nil
  then show ?case by simp
next
  case (Cons j js)
  let ?h1 = "put_at h m k j (entry_at h m k j - f * entry_at h m i j)"
  have v: "valid_rows ?h1 m" using Cons.prems(1) by (simp add: valid_put_at)
  have "rows_of ?h1 m = put (rows_of h m) k j (entry (rows_of h m) k j - f * entry (rows_of h m) i j)"
    using Cons.prems by (simp add: rows_put_at entry_at_rows)
  then show ?case using Cons.IH[OF v Cons.prems(2,3)] by simp
qed

lemma eliminate_row_rows:
  assumes "valid_rows h m" "k < length m" "i < length m"
  shows "rows_of (eliminate_row_st h m n i k) m = eliminate_row (rows_of h m) n i k"
    and "valid_rows (eliminate_row_st h m n i k) m"
  using eliminate_row_fold_rows[OF assms, of "entry_at h m k i" "[i..<n + 1]"] assms(2)
  by (simp_all add: eliminate_row_st_def eliminate_row_def Let_def entry_at_rows)

lemma eliminate_fold_rows:
  "valid_rows h m \<Longrightarrow> \<forall>k \<in> set ks. k < length m \<Longrightarrow> i < length m \<Longrightarrow>
   rows_of (fold (\<lambda>k h'. if k \<noteq> i then eliminate_row_st h' m n i k else h') ks h) m =
   fold (\<lambda>k m'. if k \<noteq> i then eliminate_row m' n i k else m') ks (rows_of h m) \<and>
   valid_rows (fold (\<lambda>k h'. if k \<noteq> i then eliminate_row_st h' m n i k else h') ks h) m"
proof (induction ks arbitrary: h)
  case Nil
  then show ?case by simp
next
  case (Cons k ks)
  let ?h1 = "if k \<noteq> i then eliminate_row_st h m n i k else h"
  have k: "k < length m" using Cons.prems(2) by simp
  have v: "valid_rows ?h1 m"
    using Cons.prems(1,3) k by (simp add: eliminate_row_rows(2))
  have "rows_of ?h1 m = (if k \<noteq> i then eliminate_row (rows_of h m) n i k else rows_of h m)"
    using Cons.prems(1,3) k by (simp add: eliminate_row_rows(1))
  then show ?case using Cons.IH[OF v _ Cons.prems(3)] Cons.prems(2) by simp
qed

lemma eliminate_rows:
  assumes "valid_rows h m" "length m = n" "i < n"
  shows "rows_of (eliminate_st h m n i) m = eliminate (rows_of h m) n i"
    and "valid_rows (eliminate_st h m n i) m"
  using eliminate_fold_rows[OF assms(1), of "[0..<n]" i n] assms(2,3)
  by (simp_all add: eliminate_st_def eliminate_def)

lemma elim_step_rows:
  assumes v: "valid_rows h m" and l: "length m = n" and i: "i < n"
    and st: "elim_step_st h m n i = (r, h')"
  shows "case r of
           Inl e \<Rightarrow> elim_step (rows_of h m) n i = Inl e
         | Inr m' \<Rightarrow> elim_step (rows_of h m) n i = Inr (rows_of h' m') \<and>
                     valid_rows h' m' \<and> length m' = n"
proof -
  let ?p = "find_pivot_st h m n i"
  let ?m1 = "swap_refs m i ?p"
  have p: "?p < n" using i by (rule find_pivot_st_range)
  have pp: "?p = find_pivot (rows_of h m) n i" using i l by (rule find_pivot_rows)
  have v1: "valid_rows h ?m1" using v l i p by (simp add: valid_swap)
  have l1: "length ?m1 = n" using l by (simp add: length_swap_refs)
  have r1: "rows_of h ?m1 = swap_rows (rows_of h m) i (find_pivot (rows_of h m) n i)"
    using l i p rows_swap[of i m ?p h] by (simp add: pp)
  have e1: "entry_at h ?m1 i i = entry (rows_of h ?m1) i i"
    using i l1 by (simp add: entry_at_rows)
  note nr = normalize_row_rows[OF v1, of i n]
  have i1: "i < length ?m1" using i l1 by simp
  note el = eliminate_rows[OF nr(2)[OF i1] l1 i]
  show ?thesis
  proof (cases "\<bar>entry_at h ?m1 i i\<bar> < 1 / 10 ^ 10")
    case True
    then have "r = Inl SingularMatrixError" using st by (simp add: elim_step_st_def Let_def)
    moreover have "elim_step (rows_of h m) n i = Inl SingularMatrixError"
      using True unfolding e1 r1 by (simp add: elim_step_def Let_def)
    ultimately show ?thesis by simp
  next
    case False
    then have r: "r = Inr ?m1" and h': "h' = eliminate_st (normalize_row_st h ?m1 n i) ?m1 n i"
      using st by (simp_all add: elim_step_st_def Let_def)
    have "elim_step (rows_of h m) n i =
        Inr (eliminate (normalize_row (rows_of h ?m1) n i) n i)"
      using False unfolding e1 r1 by (simp add: elim_step_def Let_def)
    also have "\<dots> = Inr (rows_of h' ?m1)"
      by (simp add: h' el(1) nr(1)[OF i1])
    finally show ?thesis using r el(2) l1 by (simp add: h')
  qed
qed

lemma elim_loop_rows:
  "valid_rows h m \<Longrightarrow> length m = n \<Longrightarrow> \<forall>i \<in> set is. i < n \<Longrightarrow>
   elim_loop_st h m n is = (r, h') \<Longrightarrow>
   (case r of
      Inl e \<Rightarrow> elim_loop (rows_of h m) n is = Inl e
    | Inr m' \<Rightarrow> elim_loop (rows_of h m) n is = Inr (rows_of h' m') \<and> length m' = n)"
proof (induction "is" arbitrary: h m)
  case Nil
  then show ?case by auto
next
  case (Cons i "is")
  obtain r1 h1 where st: "elim_step_st h m n i = (r1, h1)" by (cases "elim_step_st h m n i")
  have i: "i < n" using Cons.prems(3) by simp
  note step = elim_step_rows[OF Cons.prems(1,2) i st]
  show ?case
  proof (cases r1)
    case (Inl e)
    then show ?thesis using st step Cons.prems(4) by auto
  next
    case (Inr m1)
    then have s1: "elim_step (rows_of h m) n i = Inr (rows_of h1 m1)" "valid_rows h1 m1" "length m1 = n"
      using step by simp_all
    have "elim_loop_st h1 m1 n is = (r, h')" using Cons.prems(4) st Inr by simp
    from Cons.IH[OF s1(2,3) _ this] Cons.prems(3) show ?thesis
      by (cases r) (simp_all add: s1(1))
  qed
qed

lemma extends_nth: "extends h0 h \<Longrightarrow> a < length h0 \<Longrightarrow> h ! a = h0 ! a"
  by (metis extends_def nth_take)

lemma augment_fold_rows:
  "extends h0 h \<Longrightarrow> valid_rows h m \<Longrightarrow> \<forall>i \<in> set is. matrixA ! i < length h0 \<Longrightarrow> vectorB < length h0 \<Longrightarrow>
   fold (\<lambda>i (h', m). (h' @ [h' ! (matrixA ! i) @ [h' ! vectorB ! i]], m @ [length h'])) is (h, m) = (h1, m1) \<Longrightarrow>
   valid_rows h1 m1 \<and>
   rows_of h1 m1 = rows_of h m @ map (\<lambda>i. h0 ! (matrixA ! i) @ [h0 ! vectorB ! i]) is"
proof (induction "is" arbitrary: h m)
  case Nil
  then show ?case by simp
next
  case (Cons i "is")
  let ?row = "h ! (matrixA ! i) @ [h ! vectorB ! i]"
  let ?h = "h @ [?row]" and ?m = "m @ [length h]"
  have len: "length h0 \<le> length h"
    using Cons.prems(1) by (metis extends_def length_take min.cobounded1 min.commute)
  have ex: "extends h0 ?h" using Cons.prems(1) len by (simp add: extends_def)
  have old: "\<forall>a \<in> set m. a < length h" using Cons.prems(2) by (simp add: valid_rows_def)
  have v: "valid_rows ?h ?m"
    using Cons.prems(2) old by (auto simp: valid_rows_def less_Suc_eq)
  have row: "?row = h0 ! (matrixA ! i) @ [h0 ! vectorB ! i]"
    using Cons.prems(1,3,4) by (simp add: extends_nth)
  have "map ((!) ?h) m = map ((!) h) m"
    using old by (intro map_cong) (simp_all add: nth_append)
  then have r: "rows_of ?h ?m = rows_of h m @ [h0 ! (matrixA ! i) @ [h0 ! vectorB ! i]]"
    using row by (simp add: rows_of_def)
  have "fold (\<lambda>i (h', m). (h' @ [h' ! (matrixA ! i) @ [h' ! vectorB ! i]], m @ [length h'])) is (?h, ?m) = (h1, m1)"
    using Cons.prems(5) by simp
  from Cons.IH[OF ex v _ Cons.prems(4) this] Cons.prems(3) show ?case by (simp add: r)
qed

lemma solve_st_refines:
  assumes "\<forall>a \<in> set matrixA. a < length h" "vectorB < length h"
    and "solveLinearSystem_st h matrixA vectorB = (r, h')"
  shows "case r of
           Inl e \<Rightarrow> solveLinearSystem (map ((!) h) matrixA) (h ! vectorB) = Inl e
         | Inr a \<Rightarrow> solveLinearSystem (map ((!) h) matrixA) (h ! vectorB) = Inr (h' ! a)"
proof -
  let ?n = "length matrixA"
  obtain h0 m where a: "augment_st h matrixA vectorB = (h0, m)" by (cases "augment_st h matrixA vectorB")
  have "extends h h" by (simp add: extends_def)
  moreover have "valid_rows h []" by (simp add: valid_rows_def)
  moreover have "\<forall>i \<in> set [0..<?n]. matrixA ! i < length h" using assms(1) by simp
  ultimately have v: "valid_rows h0 m"
    and rows: "rows_of h0 m = rows_of h [] @ map (\<lambda>i. h ! (matrixA ! i) @ [h ! vectorB ! i]) [0..<?n]"
    using augment_fold_rows[of h h "[]" "[0..<?n]" matrixA vectorB h0 m] assms(2) a
    by (simp_all add: augment_st_def)
  have aug: "rows_of h0 m = augment (map ((!) h) matrixA) (h ! vectorB)"
    unfolding rows by (simp add: rows_of_def augment_def)
  have lm: "length m = ?n"
    using arg_cong[OF aug, of length] by (simp add: rows_of_def augment_def)
  obtain r1 h1 where lp: "elim_loop_st h0 m ?n [0..<?n] = (r1, h1)"
    by (cases "elim_loop_st h0 m ?n [0..<?n]")
  have sim: "case r1 of
      Inl e \<Rightarrow> elim_loop (rows_of h0 m) ?n [0..<?n] = Inl e
    | Inr m' \<Rightarrow> elim_loop (rows_of h0 m) ?n [0..<?n] = Inr (rows_of h1 m') \<and> length m' = ?n"
    using v lm lp by (intro elim_loop_rows) simp_all
  show ?thesis
  proof (cases r1)
    case (Inl e)
    then have "r = Inl e" using assms(3) a lp by (simp add: solveLinearSystem_st_def Let_def)
    then show ?thesis using sim Inl by (simp add: solveLinearSystem_def Let_def aug)
  next
    case (Inr m')
    then have r: "r = Inr (length h1)" and h': "h' = h1 @ [map (\<lambda>i. entry_at h1 m' i ?n) [0..<?n]]"
      using assms(3) a lp by (simp_all add: solveLinearSystem_st_def Let_def)
    from sim Inr have e: "elim_loop (rows_of h0 m) ?n [0..<?n] = Inr (rows_of h1 m')" and lm': "length m' = ?n"
      by simp_all
    have "map (\<lambda>i. entry_at h1 m' i ?n) [0..<?n] = map (\<lambda>i. entry (rows_of h1 m') i ?n) [0..<?n]"
      using lm' by (intro map_cong) (simp_all add: entry_at_rows)
    then show ?thesis using e
      by (simp add: r h' solveLinearSystem_def Let_def aug[symmetric])
  qed
qed

subsection \<open>The formula\<close>

text \<open>
  Claim C9. For a coefficient that is not skipped, the callback pushes the sign, then the
  magnitude, then the variable with its exponent. The magnitude is pushed for the constant
  term always and for another term unless the magnitude of its coefficient is within
  \<open>1 / 10 ^ 9\<close> of 1. The coefficients \<open>[0, 0, 1]\<close> give the head \<open>f(x) =\<close> followed by
  \<open>x\<close> and the superscript 2; \<open>[2, -3]\<close> give the head followed by a minus sign, 3, \<open>x\<close>,
  a plus sign and 2, the higher power first.
\<close>

theorem formula_magnitude_rule:
  "(\<not> \<bar>coeff\<bar> < 1 / 10 ^ 9 \<longrightarrow>
      push_term highestPower parts (coeff, index) =
        parts
        @ (if parts \<noteq> [] then [InnerSign (if coeff > 0 then ''+'' else ''-'')]
           else if coeff < 0 then [LeadingMinus] else [])
        @ (if highestPower - index = 0 \<or> 1 / 10 ^ 9 < \<bar>\<bar>coeff\<bar> - 1\<bar>
           then [Coeff (if \<bar>coeff\<bar> > 1000 then Exponential2 \<bar>coeff\<bar> else Precision3 \<bar>coeff\<bar>)]
           else [])
        @ (if highestPower - index = 0 then []
           else if highestPower - index = 1 then [Var_x]
           else [Var_x, Superscript (highestPower - index)])) \<and>
   PrettyFormula [0, 0, 1] = HeadParts [Var_x, Superscript 2] \<and>
   PrettyFormula [2, - 3] =
     HeadParts [LeadingMinus, Coeff (Precision3 3), Var_x, InnerSign ''+'', Coeff (Precision3 2)]"
proof (intro conjI impI)
  assume "\<not> \<bar>coeff\<bar> < 1 / 10 ^ 9"
  then show "push_term highestPower parts (coeff, index) =
        parts
        @ (if parts \<noteq> [] then [InnerSign (if coeff > 0 then ''+'' else ''-'')]
           else if coeff < 0 then [LeadingMinus] else [])
        @ (if highestPower - index = 0 \<or> 1 / 10 ^ 9 < \<bar>\<bar>coeff\<bar> - 1\<bar>
           then [Coeff (if \<bar>coeff\<bar> > 1000 then Exponential2 \<bar>coeff\<bar> else Precision3 \<bar>coeff\<bar>)]
           else [])
        @ (if highestPower - index = 0 then []
           else if highestPower - index = 1 then [Var_x]
           else [Var_x, Superscript (highestPower - index)])"
    unfolding push_term_def Let_def fst_conv snd_conv
    by (cases "highestPower - index = 0"; cases "highestPower - index = 1"; cases "parts = []";
        cases "1 / 10 ^ 9 < \<bar>\<bar>coeff\<bar> - 1\<bar>"; cases "coeff < 0") simp_all
next
  show "PrettyFormula [0, 0, 1] = HeadParts [Var_x, Superscript 2]" by code_simp
  show "PrettyFormula [2, - 3] =
     HeadParts [LeadingMinus, Coeff (Precision3 3), Var_x, InnerSign ''+'', Coeff (Precision3 2)]"
    by code_simp
qed

theorem formula_magnitude_rule_witness:
  "\<not> \<bar>1 :: real\<bar> < 1 / 10 ^ 9 \<and> push_term 2 [] (1, 0) = [Var_x, Superscript 2] \<and>
   \<not> \<bar>1 :: real\<bar> < 1 / 10 ^ 9 \<and> push_term 2 [Var_x, Superscript 2] (1, 2) =
      [Var_x, Superscript 2, InnerSign ''+'', Coeff (Precision3 1)]"
  using formula_magnitude_rule[of 1 2 "[]" 0]
    formula_magnitude_rule[of 1 2 "[Var_x, Superscript 2]" 2]
  by simp

section \<open>The algorithm in exact arithmetic\<close>

text \<open>
  The lemmas of this section are about the definitions above with their exact real
  arithmetic, not about the rounded numbers of a run. Without rounding, the elimination
  reduces the matrix fully and returns a solution of the system, and the regression
  returns a minimizer of the sum of squared residuals.
\<close>

lemma elim_step_Inr:
  assumes sh: "aug_shape n m" and i: "i < n" and u: "unit_cols n i m"
    and st: "elim_step m n i = Inr m'"
  shows "aug_shape n m'" and "unit_cols n (Suc i) m'"
    and "satisfies n m' x \<Longrightarrow> satisfies n m x"
proof -
  define p where "p = find_pivot m n i"
  define m1 where "m1 = swap_rows m i p"
  define piv where "piv = entry m1 i i"
  define m2 where "m2 = normalize_row m1 n i"
  have p: "i \<le> p" "p < n" using find_pivot_range[OF i, of m] by (simp_all add: p_def)
  from st have big: "\<not> \<bar>piv\<bar> < 1 / 10 ^ 10" and m': "m' = eliminate m2 n i"
    by (auto simp: elim_step_def Let_def p_def m1_def m2_def piv_def split: if_splits)
  then have piv0: "piv \<noteq> 0" by auto
  have sh1: "aug_shape n m1" using sh i p by (simp add: m1_def shape_swap_rows)
  have sh2: "aug_shape n m2" using sh1 by (simp add: m2_def shape_normalize_row)
  show sh': "aug_shape n m'" using sh2 by (simp add: m' shape_eliminate)
  have e1: "entry m1 r c = (if r = p then entry m i c else if r = i then entry m p c else entry m r c)" for r c
    unfolding m1_def using sh i p(2) by (rule entry_swap_rows)
  have u1: "entry m1 r c = (if r = c then 1 else 0)" if "c < i" "r < n" for r c
    using that u p i by (auto simp: e1 unit_cols_def)
  have z1: "entry m1 i c = 0" if "c < i" for c
    using u1[OF that i] that by simp
  have e2: "entry m2 r c =
     (if r = i then (if c = i then 1 else if i < c \<and> c \<le> n then entry m1 i c / piv else entry m1 i c)
      else entry m1 r c)" for r c
    unfolding m2_def piv_def using sh1 i by (rule entry_normalize_row)
  have F1: "entry m2 i c = entry m1 i c / piv" if "c \<le> n" for c
    using that piv0 z1[of c] by (cases "c < i") (auto simp: e2 piv_def)
  have e2': "entry m2 r c = entry m1 r c" if "r \<noteq> i" for r c
    using that by (simp add: e2)
  have e3: "entry m' r c =
     (if r \<noteq> i \<and> i \<le> c \<and> c \<le> n then entry m2 r c - entry m2 r i * entry m2 i c else entry m2 r c)"
    if "r < n" for r c
    unfolding m' using sh2 that by (rule entry_eliminate)
  have F3: "entry m' i c = entry m2 i c" for c
    using i by (simp add: e3)
  have z2: "entry m2 i c = 0" if "c < i" for c
    using that z1[OF that] by (simp add: e2)
  have F2: "entry m' r c = entry m1 r c - entry m1 r i * entry m2 i c" if "r < n" "r \<noteq> i" "c \<le> n" for r c
    using that z2[of c] by (cases "c < i") (auto simp: e3 e2')
  show "unit_cols n (Suc i) m'"
    unfolding unit_cols_def
  proof (intro allI impI)
    fix c r assume c: "c < Suc i" and r: "r < n"
    show "entry m' r c = (if r = c then 1 else 0)"
    proof (cases "r = i")
      case True
      then show ?thesis using c z2[of c] by (cases "c = i") (auto simp: F3 e2)
    next
      case False
      have cn: "c \<le> n" using c i by simp
      have "entry m2 i c = (if c = i then 1 else 0)"
        using c z2[of c] by (cases "c = i") (auto simp: e2)
      then show ?thesis using False c u1[of c r] r F2[OF r False cn]
        by (cases "c = i") auto
    qed
  qed
  show "satisfies n m x" if sat: "satisfies n m' x"
  proof -
    have rowi: "(\<Sum>c<n. entry m2 i c * x c) = entry m2 i n"
      using sat i by (auto simp: satisfies_def F3[symmetric])
    have sat1: "(\<Sum>c<n. entry m1 r c * x c) = entry m1 r n" if r: "r < n" for r
    proof (cases "r = i")
      case True
      have "(\<Sum>c<n. entry m1 i c * x c) = (\<Sum>c<n. piv * (entry m2 i c * x c))"
        using piv0 by (intro sum.cong) (auto simp: F1)
      also have "\<dots> = piv * entry m2 i n"
        by (simp add: sum_distrib_left[symmetric] rowi)
      also have "\<dots> = entry m1 i n" using piv0 by (simp add: F1)
      finally show ?thesis using True by simp
    next
      case False
      have "(\<Sum>c<n. entry m' r c * x c) = entry m' r n"
        using sat r by (simp add: satisfies_def)
      moreover have "(\<Sum>c<n. entry m' r c * x c) =
          (\<Sum>c<n. entry m1 r c * x c) - entry m1 r i * (\<Sum>c<n. entry m2 i c * x c)"
      proof -
        have "(\<Sum>c<n. entry m' r c * x c) =
            (\<Sum>c<n. entry m1 r c * x c - entry m1 r i * (entry m2 i c * x c))"
          by (intro sum.cong) (auto simp: F2[OF r False] algebra_simps)
        then show ?thesis by (simp add: sum_subtractf sum_distrib_left)
      qed
      ultimately show ?thesis by (simp add: rowi F2[OF r False])
    qed
    show ?thesis
      unfolding satisfies_def
    proof (intro allI impI)
      fix r assume r: "r < n"
      show "(\<Sum>c<n. entry m r c * x c) = entry m r n"
      proof (cases "r = i")
        case True
        then show ?thesis using sat1[OF p(2)] by (simp add: e1)
      next
        case ri: False
        show ?thesis
        proof (cases "r = p")
          case True
          then show ?thesis using sat1[OF i] ri by (simp add: e1)
        next
          case False
          then show ?thesis using sat1[OF r] ri by (simp add: e1)
        qed
      qed
    qed
  qed
qed

lemma elim_loop_Inr:
  "aug_shape n m \<Longrightarrow> unit_cols n i m \<Longrightarrow> i \<le> n \<Longrightarrow> elim_loop m n [i..<n] = Inr m' \<Longrightarrow>
   unit_cols n n m' \<and> (\<forall>x. satisfies n m' x \<longrightarrow> satisfies n m x)"
proof (induction "n - i" arbitrary: i m)
  case 0
  then show ?case by simp
next
  case (Suc d)
  then have i: "i < n" by simp
  then have upt: "[i..<n] = i # [Suc i..<n]" by (rule upt_conv_Cons)
  from Suc.prems(4) obtain m1 where m1: "elim_step m n i = Inr m1" "elim_loop m1 n [Suc i..<n] = Inr m'"
    by (auto simp: upt split: sum.splits)
  note step = elim_step_Inr[OF Suc.prems(1) i Suc.prems(2) m1(1)]
  have "unit_cols n n m' \<and> (\<forall>x. satisfies n m' x \<longrightarrow> satisfies n m1 x)"
    using Suc.hyps(2) i by (intro Suc.hyps(1)[OF _ step(1) step(2) _ m1(2)]) auto
  then show ?case using step(3) by blast
qed

lemma solve_Inr:
  assumes sq: "square_system A b" and r: "solveLinearSystem A b = Inr x"
  shows "length x = length A" and "mat_vec A x = b"
proof -
  let ?n = "length A"
  from r obtain m' where m': "elim_loop (augment A b) ?n [0..<?n] = Inr m'"
    and x: "x = map (\<lambda>i. entry m' i ?n) [0..<?n]"
    by (auto simp: solveLinearSystem_def Let_def split: sum.splits)
  show len: "length x = ?n" by (simp add: x)
  have "unit_cols ?n 0 (augment A b)" by (simp add: unit_cols_def)
  from elim_loop_Inr[OF aug_shape_augment[OF sq] this _ m']
  have u: "unit_cols ?n ?n m'" and s: "satisfies ?n m' xf \<Longrightarrow> satisfies ?n (augment A b) xf" for xf
    by auto
  have "satisfies ?n m' (\<lambda>c. x ! c)"
    unfolding satisfies_def
  proof (intro allI impI)
    fix r assume r: "r < ?n"
    have "(\<Sum>c<?n. entry m' r c * x ! c) = (\<Sum>c<?n. if c = r then x ! c else 0)"
      using u r by (intro sum.cong) (auto simp: unit_cols_def)
    also have "\<dots> = x ! r" using r by simp
    finally show "(\<Sum>c<?n. entry m' r c * x ! c) = entry m' r ?n" using r by (simp add: x)
  qed
  from s[OF this] have sat: "\<And>r. r < ?n \<Longrightarrow> (\<Sum>c<?n. entry (augment A b) r c * x ! c) = entry (augment A b) r ?n"
    by (simp add: satisfies_def)
  show "mat_vec A x = b"
  proof (rule nth_equalityI)
    show "length (mat_vec A x) = length b" using sq by (simp add: mat_vec_def square_system_def)
    fix r assume "r < length (mat_vec A x)"
    then have r: "r < ?n" by (simp add: mat_vec_def)
    have lr: "length (A ! r) = ?n" using sq r by (simp add: square_system_def)
    have "(\<Sum>c<?n. A ! r ! c * x ! c) = (\<Sum>c<?n. entry (augment A b) r c * x ! c)"
      by (intro sum.cong) (simp_all add: entry_augment(1)[OF sq r])
    also have "\<dots> = b ! r" using sat[OF r] by (simp add: entry_augment(2)[OF sq r])
    finally show "mat_vec A x ! r = b ! r" using r lr by (simp add: mat_vec_def)
  qed
qed

lemma solve_full_reduction:
  assumes sq: "square_system A b" and r: "solveLinearSystem A b = Inr x"
  shows "\<exists>m'. elim_loop (augment A b) (length A) [0..<length A] = Inr m' \<and>
     unit_cols (length A) (length A) m' \<and> x = map (\<lambda>i. entry m' i (length A)) [0..<length A]"
proof -
  let ?n = "length A"
  from r obtain m' where m': "elim_loop (augment A b) ?n [0..<?n] = Inr m'"
    and x: "x = map (\<lambda>i. entry m' i ?n) [0..<?n]"
    by (auto simp: solveLinearSystem_def Let_def split: sum.splits)
  have "unit_cols ?n 0 (augment A b)" by (simp add: unit_cols_def)
  from elim_loop_Inr[OF aug_shape_augment[OF sq] this _ m'] have "unit_cols ?n ?n m'" by simp
  then show ?thesis using m' x by blast
qed

lemma fold_add_upt: "fold (\<lambda>k (s::real). s + f k) [0..<N] a = a + (\<Sum>k<N. f k)"
  by (induction N) simp_all

lemma fold_add_list: "fold (\<lambda>p (s::real). s + g p) ps a = a + (\<Sum>k<length ps. g (ps ! k))"
proof (induction ps arbitrary: a)
  case Nil
  then show ?case by simp
next
  case (Cons p ps)
  have "(\<Sum>k<Suc (length ps). g ((p # ps) ! k)) = g p + (\<Sum>k<length ps. g (ps ! k))"
    by (subst sum.lessThan_Suc_shift) simp
  then show ?case by (simp add: Cons.IH)
qed

lemma evaluatePolynomial_sum:
  "evaluatePolynomial c x = (\<Sum>i<length c. c ! i * x ^ i)"
  by (simp add: evaluatePolynomial_def fold_add_upt)

lemma residual_rss_sum:
  "residual_rss points c =
     (\<Sum>k<length points. (y_of (points ! k) - evaluatePolynomial c (x_of (points ! k))) ^ 2)"
  by (simp add: residual_rss_def fold_add_list)

lemma normal_XtX_nth:
  assumes "i < n" "j < n"
  shows "normal_XtX points n ! i ! j = (\<Sum>k<length points. x_of (points ! k) ^ i * x_of (points ! k) ^ j)"
proof -
  have "normal_XtX points n ! i ! j =
      (\<Sum>k<length points. transpose_Xt (design_X points n) n (length points) ! i ! k * design_X points n ! k ! j)"
    using assms by (simp add: normal_XtX_def gram_XtX_def fold_add_upt)
  also have "\<dots> = (\<Sum>k<length points. x_of (points ! k) ^ i * x_of (points ! k) ^ j)"
    using assms by (intro sum.cong) (simp_all add: transpose_Xt_nth design_X_nth)
  finally show ?thesis .
qed

lemma normal_XtY_nth:
  assumes "i < n"
  shows "normal_XtY points n ! i = (\<Sum>k<length points. x_of (points ! k) ^ i * y_of (points ! k))"
proof -
  have "normal_XtY points n ! i =
      (\<Sum>k<length points. transpose_Xt (design_X points n) n (length points) ! i ! k * map y_of points ! k)"
    using assms by (simp add: normal_XtY_def moment_XtY_def fold_add_upt)
  also have "\<dots> = (\<Sum>k<length points. x_of (points ! k) ^ i * y_of (points ! k))"
    using assms by (intro sum.cong) (simp_all add: transpose_Xt_nth)
  finally show ?thesis .
qed

lemma regression_normal_equations:
  assumes "calculatePolynomialRegression points d = Inr c"
  shows "length c = nat (d + 1)"
    and "mat_vec (normal_XtX points (nat (d + 1))) c = normal_XtY points (nat (d + 1))"
proof -
  let ?n = "nat (d + 1)"
  have s: "solveLinearSystem (normal_XtX points ?n) (normal_XtY points ?n) = Inr c"
    using assms by (simp add: regression_solve)
  have l: "length (normal_XtX points ?n) = ?n" by (simp add: normal_XtX_def gram_XtX_def)
  from solve_Inr[OF normal_square s] l
  show "length c = ?n" and "mat_vec (normal_XtX points ?n) c = normal_XtY points ?n"
    by simp_all
qed

lemma residual_orthogonal:
  assumes "calculatePolynomialRegression points d = Inr c" and i: "i < nat (d + 1)"
  shows "(\<Sum>k<length points. x_of (points ! k) ^ i *
           (y_of (points ! k) - evaluatePolynomial c (x_of (points ! k)))) = 0"
proof -
  let ?n = "nat (d + 1)" and ?N = "length points"
  let ?x = "\<lambda>k. x_of (points ! k)" and ?y = "\<lambda>k. y_of (points ! k)"
  note ne = regression_normal_equations[OF assms(1)]
  have li: "length (normal_XtX points ?n ! i) = ?n"
    using i by (simp add: normal_XtX_def gram_XtX_def)
  have "mat_vec (normal_XtX points ?n) c ! i = normal_XtY points ?n ! i"
    by (simp add: ne(2))
  moreover have "mat_vec (normal_XtX points ?n) c ! i = (\<Sum>j<?n. normal_XtX points ?n ! i ! j * c ! j)"
    using i li by (simp add: mat_vec_def normal_XtX_def gram_XtX_def)
  moreover have "(\<Sum>j<?n. normal_XtX points ?n ! i ! j * c ! j) =
      (\<Sum>j<?n. (\<Sum>k<?N. ?x k ^ i * ?x k ^ j) * c ! j)"
    by (intro sum.cong) (simp_all add: normal_XtX_nth[OF i])
  ultimately have row: "(\<Sum>j<?n. (\<Sum>k<?N. ?x k ^ i * ?x k ^ j) * c ! j) = (\<Sum>k<?N. ?x k ^ i * ?y k)"
    using normal_XtY_nth[OF i, of points] by simp
  have "(\<Sum>k<?N. ?x k ^ i * (?y k - evaluatePolynomial c (?x k))) =
      (\<Sum>k<?N. ?x k ^ i * ?y k) - (\<Sum>k<?N. \<Sum>j<?n. ?x k ^ i * ?x k ^ j * c ! j)"
    by (simp add: evaluatePolynomial_sum ne(1) right_diff_distrib sum_subtractf sum_distrib_left mult_ac)
  also have "(\<Sum>k<?N. \<Sum>j<?n. ?x k ^ i * ?x k ^ j * c ! j) = (\<Sum>j<?n. \<Sum>k<?N. ?x k ^ i * ?x k ^ j * c ! j)"
    by (rule sum.swap)
  also have "\<dots> = (\<Sum>j<?n. (\<Sum>k<?N. ?x k ^ i * ?x k ^ j) * c ! j)"
    by (simp add: sum_distrib_right)
  finally show ?thesis using row by simp
qed

lemma regression_minimal:
  assumes fit: "calculatePolynomialRegression points d = Inr c"
    and len: "length c' = nat (d + 1)"
  shows "residual_rss points c \<le> residual_rss points c'"
proof -
  let ?n = "nat (d + 1)" and ?N = "length points"
  let ?x = "\<lambda>k. x_of (points ! k)" and ?y = "\<lambda>k. y_of (points ! k)"
  define r where "r k = ?y k - evaluatePolynomial c (?x k)" for k
  define e where "e k = evaluatePolynomial c (?x k) - evaluatePolynomial c' (?x k)" for k
  have lc: "length c = ?n" using regression_normal_equations(1)[OF fit] .
  have e: "e k = (\<Sum>i<?n. (c ! i - c' ! i) * ?x k ^ i)" for k
    by (simp add: e_def evaluatePolynomial_sum lc len left_diff_distrib sum_subtractf)
  have "(\<Sum>k<?N. r k * e k) = (\<Sum>k<?N. \<Sum>i<?n. (c ! i - c' ! i) * (?x k ^ i * r k))"
    by (simp add: e sum_distrib_left mult_ac)
  also have "\<dots> = (\<Sum>i<?n. \<Sum>k<?N. (c ! i - c' ! i) * (?x k ^ i * r k))"
    by (rule sum.swap)
  also have "\<dots> = (\<Sum>i<?n. (c ! i - c' ! i) * (\<Sum>k<?N. ?x k ^ i * r k))"
    by (simp add: sum_distrib_left)
  also have "\<dots> = 0"
    using residual_orthogonal[OF fit] by (intro sum.neutral) (simp add: r_def)
  finally have cross: "(\<Sum>k<?N. r k * e k) = 0" .
  have "residual_rss points c' = (\<Sum>k<?N. (r k + e k) ^ 2)"
    by (simp add: residual_rss_sum r_def e_def)
  also have "\<dots> = (\<Sum>k<?N. (r k) ^ 2) + (\<Sum>k<?N. (e k) ^ 2) + 2 * (\<Sum>k<?N. r k * e k)"
    by (simp add: power2_sum sum.distrib sum_distrib_left mult_ac)
  also have "\<dots> = residual_rss points c + (\<Sum>k<?N. (e k) ^ 2)"
    unfolding cross by (simp add: residual_rss_sum r_def)
  finally have "residual_rss points c' = residual_rss points c + (\<Sum>k<?N. (e k) ^ 2)" .
  moreover have "0 \<le> (\<Sum>k<?N. (e k) ^ 2)" by (intro sum_nonneg) simp
  ultimately show ?thesis by simp
qed

end
